theory Spec2Isabelle
  imports Main "HOL-Library.Char_ord" "HOL-Library.List_Lexorder" "HOL-Library.Product_Lexorder"
begin

section \<open>Python strings\<close>

text \<open>
  A Python \<^verbatim>\<open>str\<close> is modelled as a HOL \<open>string\<close>. A HOL \<open>char\<close> stands for the
  Unicode code point with the same number, so the model covers the code points 0 to 255
  (Basic Latin and Latin-1 Supplement, which hold the Danish letters the patterns of the
  source name). The character classes below are those of CPython on that range.
\<close>

definition cp :: "char \<Rightarrow> nat" where
  "cp c = of_char c"

text \<open>\<^verbatim>\<open>str.isspace\<close> on one character; the class \<^verbatim>\<open>\s\<close> of a Unicode pattern is the same.\<close>

definition is_space :: "char \<Rightarrow> bool" where
  "is_space c = (let n = cp c in (9 \<le> n \<and> n \<le> 13) \<or> (28 \<le> n \<and> n \<le> 32) \<or> n = 133 \<or> n = 160)"

text \<open>The class \<^verbatim>\<open>\d\<close> (decimal digits) and \<^verbatim>\<open>str.isdigit\<close> on one character.\<close>

definition is_decimal :: "char \<Rightarrow> bool" where
  "is_decimal c = (let n = cp c in 48 \<le> n \<and> n \<le> 57)"

definition is_digit_char :: "char \<Rightarrow> bool" where
  "is_digit_char c = (let n = cp c in (48 \<le> n \<and> n \<le> 57) \<or> n = 178 \<or> n = 179 \<or> n = 185)"

definition is_ascii_lower :: "char \<Rightarrow> bool" where
  "is_ascii_lower c = (let n = cp c in 97 \<le> n \<and> n \<le> 122)"

definition is_ascii_upper :: "char \<Rightarrow> bool" where
  "is_ascii_upper c = (let n = cp c in 65 \<le> n \<and> n \<le> 90)"

text \<open>\<^verbatim>\<open>str.isalpha\<close> on one character of the range.\<close>

definition is_alpha :: "char \<Rightarrow> bool" where
  "is_alpha c = (let n = cp c in is_ascii_lower c \<or> is_ascii_upper c \<or> n = 170 \<or> n = 181 \<or> n = 186
     \<or> (192 \<le> n \<and> n \<le> 214) \<or> (216 \<le> n \<and> n \<le> 246) \<or> (248 \<le> n \<and> n \<le> 255))"

text \<open>The class \<^verbatim>\<open>\w\<close>: alphanumeric (letters, digits, other numerics) or underscore.\<close>

definition is_word :: "char \<Rightarrow> bool" where
  "is_word c = (let n = cp c in is_alpha c \<or> is_digit_char c \<or> n = 188 \<or> n = 189 \<or> n = 190 \<or> n = 95)"

text \<open>\<^verbatim>\<open>str.lower\<close>: A-Z and the capital letters of Latin-1 move up by 32.\<close>

definition lower_char :: "char \<Rightarrow> char" where
  "lower_char c = (let n = cp c in
     if is_ascii_upper c \<or> (192 \<le> n \<and> n \<le> 222 \<and> n \<noteq> 215) then char_of (n + 32) else c)"

definition lower :: "string \<Rightarrow> string" where
  "lower s = map lower_char s"

definition nl :: string where
  "nl = [CHR 0x0A]"

definition lstrip_with :: "(char \<Rightarrow> bool) \<Rightarrow> string \<Rightarrow> string" where
  "lstrip_with P s = dropWhile P s"

definition rstrip_with :: "(char \<Rightarrow> bool) \<Rightarrow> string \<Rightarrow> string" where
  "rstrip_with P s = rev (dropWhile P (rev s))"

definition strip_with :: "(char \<Rightarrow> bool) \<Rightarrow> string \<Rightarrow> string" where
  "strip_with P s = rstrip_with P (lstrip_with P s)"

text \<open>\<^verbatim>\<open>s.strip()\<close>, \<^verbatim>\<open>s.rstrip()\<close> and \<^verbatim>\<open>s.strip(chars)\<close>.\<close>

definition strip :: "string \<Rightarrow> string" where
  "strip s = strip_with is_space s"

definition rstrip :: "string \<Rightarrow> string" where
  "rstrip s = rstrip_with is_space s"

definition strip_chars :: "string \<Rightarrow> string \<Rightarrow> string" where
  "strip_chars chars s = strip_with (\<lambda>c. c \<in> set chars) s"

text \<open>\<^verbatim>\<open>sep.join(xs)\<close>.\<close>

fun join :: "string \<Rightarrow> string list \<Rightarrow> string" where
  "join sep [] = []"
| "join sep [x] = x"
| "join sep (x # y # ys) = x @ sep @ join sep (y # ys)"

text \<open>\<^verbatim>\<open>s.startswith(p)\<close>, \<^verbatim>\<open>sub in s\<close>.\<close>

definition startswith :: "string \<Rightarrow> string \<Rightarrow> bool" where
  "startswith s p = (take (length p) s = p)"

fun contains :: "string \<Rightarrow> string \<Rightarrow> bool" where
  "contains [] sub = (sub = [])"
| "contains (c # cs) sub = (startswith (c # cs) sub \<or> contains cs sub)"

text \<open>
  Python's slice \<^verbatim>\<open>xs[i:j]\<close>: a negative bound counts from the end, and both bounds
  are clamped to the list.
\<close>

definition slice_index :: "nat \<Rightarrow> int \<Rightarrow> nat" where
  "slice_index n i = (if i < 0 then nat (int n + i) else min n (nat i))"

definition py_slice :: "'a list \<Rightarrow> int \<Rightarrow> int \<Rightarrow> 'a list" where
  "py_slice xs i j = (let a = slice_index (length xs) i; b = slice_index (length xs) j
     in take (b - a) (drop a xs))"

text \<open>
  \<^verbatim>\<open>s.splitlines()\<close>: a line ends at LF, VT, FF, CR, CR LF, FS, GS, RS or NEL; the
  line breaks are dropped and a final break opens no further line.
\<close>

definition is_linebreak :: "char \<Rightarrow> bool" where
  "is_linebreak c = (let n = cp c in (10 \<le> n \<and> n \<le> 13) \<or> (28 \<le> n \<and> n \<le> 30) \<or> n = 133)"

fun splitlines_aux :: "string \<Rightarrow> string \<Rightarrow> string list" where
  "splitlines_aux cur [] = (if cur = [] then [] else [cur])"
| "splitlines_aux cur [c] = (if is_linebreak c then [cur] else [cur @ [c]])"
| "splitlines_aux cur (c # d # cs) =
     (if c = CHR 0x0D \<and> d = CHR 0x0A then cur # splitlines_aux [] cs
      else if is_linebreak c then cur # splitlines_aux [] (d # cs)
      else splitlines_aux (cur @ [c]) (d # cs))"

definition splitlines :: "string \<Rightarrow> string list" where
  "splitlines s = splitlines_aux [] s"

text \<open>The maximal non-empty runs of characters of a class, left to right.\<close>

fun runs_aux :: "(char \<Rightarrow> bool) \<Rightarrow> string \<Rightarrow> string \<Rightarrow> string list" where
  "runs_aux P cur [] = (if cur = [] then [] else [cur])"
| "runs_aux P cur (c # cs) =
     (if P c then runs_aux P (cur @ [c]) cs
      else (if cur = [] then [] else [cur]) @ runs_aux P [] cs)"

definition runs :: "(char \<Rightarrow> bool) \<Rightarrow> string \<Rightarrow> string list" where
  "runs P s = runs_aux P [] s"

text \<open>\<^verbatim>\<open>s.split()\<close>: the words between runs of whitespace.\<close>

definition split_ws :: "string \<Rightarrow> string list" where
  "split_ws s = runs (\<lambda>c. \<not> is_space c) s"

section \<open>The document index (vault\_index.py)\<close>

record Section =
  path :: string
  heading :: string
  line_start :: int
  line_end :: int
  "text" :: string
  score :: int

text \<open>
  \<^verbatim>\<open>HEADING_RE = ^(#{1,6})\s+(.*)\<close>, matched at the start of the string. The hashes are
  taken greedily; giving one back leaves a hash where whitespace is needed, so a match
  exists exactly when one to six hashes are followed by whitespace. The second group runs
  to the first line feed. The result is the pair of groups.
\<close>

definition HEADING_RE_match :: "string \<Rightarrow> (string \<times> string) option" where
  "HEADING_RE_match s =
     (let hashes = takeWhile (\<lambda>c. c = CHR ''#'') s;
          rest = dropWhile (\<lambda>c. c = CHR ''#'') s
      in if 1 \<le> length hashes \<and> length hashes \<le> 6 \<and> rest \<noteq> [] \<and> is_space (hd rest)
         then Some (hashes, takeWhile (\<lambda>c. c \<noteq> CHR 0x0A) (dropWhile is_space rest))
         else None)"

text \<open>The heading a line of the document opens, if it is a heading line.\<close>

definition heading_of :: "string \<Rightarrow> string option" where
  "heading_of line =
     (case HEADING_RE_match (strip line) of
        None \<Rightarrow> None
      | Some (h, t) \<Rightarrow> Some (if strip t = [] then ''(top)'' else strip t))"

text \<open>The first loop of \<^verbatim>\<open>_split_sections\<close>: the indices and headings of the heading lines.\<close>

fun boundaries_from :: "nat \<Rightarrow> string list \<Rightarrow> (nat \<times> string) list" where
  "boundaries_from idx [] = []"
| "boundaries_from idx (line # ls) =
     (case heading_of line of
        None \<Rightarrow> boundaries_from (Suc idx) ls
      | Some h \<Rightarrow> (idx, h) # boundaries_from (Suc idx) ls)"

text \<open>The second loop: one section for each boundary, up to the line before the next.\<close>

fun sections_loop :: "string \<Rightarrow> string list \<Rightarrow> (nat \<times> string) list \<Rightarrow> Section list" where
  "sections_loop p lines [] = []"
| "sections_loop p lines ((start_idx, h) # rest) =
     (let end_idx = (case rest of [] \<Rightarrow> int (length lines) - 1 | (nxt, _) # _ \<Rightarrow> int nxt - 1);
          section_lines = py_slice lines (int start_idx) (end_idx + 1)
      in \<lparr>path = p, heading = h, line_start = int start_idx + 1, line_end = end_idx + 1,
           text = strip (join nl section_lines), score = 0\<rparr>
         # sections_loop p lines rest)"

definition split_sections :: "string \<Rightarrow> string list \<Rightarrow> Section list" where
  "split_sections p lines =
     (if lines = [] then []
      else let boundaries = boundaries_from 0 lines in
        if boundaries = [] then
          [\<lparr>path = p, heading = ''(top)'', line_start = 1, line_end = int (length lines),
            text = strip (join nl lines), score = 0\<rparr>]
        else
          (if fst (hd boundaries) > 0 then
             [\<lparr>path = p, heading = ''(top)'', line_start = 1, line_end = int (fst (hd boundaries)),
               text = strip (join nl (py_slice lines 0 (int (fst (hd boundaries))))), score = 0\<rparr>]
           else [])
          @ sections_loop p lines boundaries)"

text \<open>
  \<^verbatim>\<open>s.count(sub)\<close>: the occurrences of \<open>sub\<close> in \<open>s\<close>, found left to right without
  overlap; the empty string occurs once at every position and at the end.
\<close>

function count_from :: "string \<Rightarrow> string \<Rightarrow> nat" where
  "count_from sub [] = 0"
| "count_from sub (c # cs) =
     (if sub \<noteq> [] \<and> startswith (c # cs) sub
      then Suc (count_from sub (drop (length sub) (c # cs)))
      else count_from sub cs)"
  by pat_completeness auto
termination
  by (relation "measure (\<lambda>(sub, s). length s)") (auto simp add: Suc_le_eq)

definition str_count :: "string \<Rightarrow> string \<Rightarrow> nat" where
  "str_count s sub = (if sub = [] then length s + 1 else count_from sub s)"

text \<open>
  \<^verbatim>\<open>WORD_RE = [\w\<ae>\<oslash>\<aring>\<AE>\<Oslash>\<Aring>]+\<close> and its \<^verbatim>\<open>findall\<close>: the maximal runs of word characters.
  The six letters named in the class are the code points 230, 248, 229, 198, 216, 197.
\<close>

definition is_word_re :: "char \<Rightarrow> bool" where
  "is_word_re c = (is_word c \<or> cp c \<in> {230, 248, 229, 198, 216, 197})"

definition WORD_RE_findall :: "string \<Rightarrow> string list" where
  "WORD_RE_findall s = runs is_word_re s"

record NoteMeta =
  note_path :: string
  title :: string
  aliases :: "string list"

text \<open>
  The index: its sections and its notes by path. A score is a Python float; every score
  the index computes is a sum of occurrence counts and of the constants 20.0, 8.0, 3.0
  and 2.0, which floats represent exactly, so scores are integers here.
\<close>

record VaultIndex =
  sections :: "Section list"
  "notes" :: "string \<rightharpoonup> NoteMeta"

text \<open>The loop of \<^verbatim>\<open>_score_section\<close> over the tokens, with the score so far.\<close>

fun score_tokens :: "string \<Rightarrow> string \<Rightarrow> string \<Rightarrow> string list \<Rightarrow> int \<Rightarrow> int" where
  "score_tokens text_lower heading_lower path_lower [] sc = sc"
| "score_tokens text_lower heading_lower path_lower (token # tokens) sc =
     (if token = [] then score_tokens text_lower heading_lower path_lower tokens sc
      else score_tokens text_lower heading_lower path_lower tokens
             (sc + int (str_count text_lower token)
                 + 3 * int (str_count heading_lower token)
                 + 2 * int (str_count path_lower token)))"

definition score_section :: "Section \<Rightarrow> string list \<Rightarrow> string \<Rightarrow> int" where
  "score_section section tokens query_lower =
     (let text_lower = lower (text section);
          heading_lower = lower (heading section);
          path_lower = lower (path section);
          sc = score_tokens text_lower heading_lower path_lower tokens 0
      in if contains text_lower query_lower then sc + 8 else sc)"

definition note_boost :: "(string \<rightharpoonup> NoteMeta) \<Rightarrow> string \<Rightarrow> string \<Rightarrow> int" where
  "note_boost ns p query_lower =
     (case ns p of
        None \<Rightarrow> 0
      | Some note_meta \<Rightarrow>
          if list_ex (\<lambda>alias. contains query_lower alias) (aliases note_meta) then 20 else 0)"

text \<open>The loop of \<^verbatim>\<open>find_sections\<close> over the stored sections: the scored copies, in order.\<close>

fun find_loop :: "(string \<rightharpoonup> NoteMeta) \<Rightarrow> string list \<Rightarrow> string \<Rightarrow> Section list \<Rightarrow> Section list" where
  "find_loop ns tokens query_lower [] = []"
| "find_loop ns tokens query_lower (section # rest) =
     (let sc = note_boost ns (path section) query_lower + score_section section tokens query_lower
      in if sc > 0
         then \<lparr>path = path section, heading = heading section, line_start = line_start section,
               line_end = line_end section, text = text section, score = sc\<rparr>
              # find_loop ns tokens query_lower rest
         else find_loop ns tokens query_lower rest)"

text \<open>
  \<^verbatim>\<open>results.sort(key=lambda item: item.score, reverse=True)\<close> is a stable sort by falling
  score: results of equal score keep their order. \<^verbatim>\<open>results[:top_k]\<close> is a Python slice.
\<close>

definition find_sections :: "VaultIndex \<Rightarrow> string \<Rightarrow> int \<Rightarrow> Section list" where
  "find_sections idx query top_k =
     (let query_lower = lower query;
          tokens = map lower (WORD_RE_findall query_lower)
      in if tokens = [] then []
         else py_slice (sort_key (\<lambda>item. - score item)
                (find_loop (notes idx) tokens query_lower (sections idx))) 0 top_k)"

text \<open>
  The score as the specification words it: the alias boost, the sum over the query's word
  tokens of the weighted counts, and the bonus for the whole query.
\<close>

definition spec_score :: "(string \<rightharpoonup> NoteMeta) \<Rightarrow> Section \<Rightarrow> string \<Rightarrow> int" where
  "spec_score ns s query =
     (if (\<exists>m. ns (path s) = Some m \<and> (\<exists>alias \<in> set (aliases m). contains (lower query) alias))
      then 20 else 0)
     + (\<Sum>token \<leftarrow> WORD_RE_findall (lower query).
          int (str_count (lower (text s)) token)
          + 3 * int (str_count (lower (heading s)) token)
          + 2 * int (str_count (lower (path s)) token))
     + (if contains (lower (text s)) (lower query) then 8 else 0)"

text \<open>
  The same function with the objects made explicit. The store holds every Section object
  allocated so far, and a reference is the position of its object; the index holds
  references to its sections. Constructing a Section allocates a new object at the end of
  the store. The function returns the store after the call and the references it returns.
\<close>

type_synonym ref = nat

record VaultState =
  objs :: "Section list"
  section_refs :: "ref list"
  note_metas :: "string \<rightharpoonup> NoteMeta"

fun find_loop_st :: "(string \<rightharpoonup> NoteMeta) \<Rightarrow> string list \<Rightarrow> string \<Rightarrow> ref list
    \<Rightarrow> Section list \<Rightarrow> ref list \<Rightarrow> Section list \<times> ref list" where
  "find_loop_st ns tokens query_lower [] st results = (st, results)"
| "find_loop_st ns tokens query_lower (r # rest) st results =
     (let section = st ! r;
          sc = note_boost ns (path section) query_lower + score_section section tokens query_lower
      in if sc > 0
         then find_loop_st ns tokens query_lower rest
                (st @ [\<lparr>path = path section, heading = heading section, line_start = line_start section,
                        line_end = line_end section, text = text section, score = sc\<rparr>])
                (results @ [length st])
         else find_loop_st ns tokens query_lower rest st results)"

definition find_sections_st :: "VaultState \<Rightarrow> string \<Rightarrow> int \<Rightarrow> VaultState \<times> ref list" where
  "find_sections_st w query top_k =
     (let query_lower = lower query;
          tokens = map lower (WORD_RE_findall query_lower)
      in if tokens = [] then (w, [])
         else let (st, results) = find_loop_st (note_metas w) tokens query_lower (section_refs w) (objs w) []
              in (w\<lparr>objs := st\<rparr>, py_slice (sort_key (\<lambda>r. - score (st ! r)) results) 0 top_k))"

section \<open>Price extraction (app.py)\<close>

text \<open>
  \<^verbatim>\<open>s.replace(old, new)\<close>: every occurrence of \<open>old\<close>, found left to right without
  overlap, becomes \<open>new\<close>; for the empty \<open>old\<close>, \<open>new\<close> goes before every character and
  at the end.
\<close>

function replace_from :: "string \<Rightarrow> string \<Rightarrow> string \<Rightarrow> string" where
  "replace_from old new [] = []"
| "replace_from old new (c # cs) =
     (if old \<noteq> [] \<and> startswith (c # cs) old
      then new @ replace_from old new (drop (length old) (c # cs))
      else c # replace_from old new cs)"
  by pat_completeness auto
termination
  by (relation "measure (\<lambda>(old, new, s). length s)") (auto simp add: Suc_le_eq)

definition replace :: "string \<Rightarrow> string \<Rightarrow> string \<Rightarrow> string" where
  "replace s old new =
     (if old = [] then new @ concat (map (\<lambda>c. c # new) s) else replace_from old new s)"

text \<open>\<^verbatim>\<open>s.split(sep)\<close> for a separator of one character: the pieces, empty ones included.\<close>

fun split_on_aux :: "char \<Rightarrow> string \<Rightarrow> string \<Rightarrow> string list" where
  "split_on_aux sep cur [] = [cur]"
| "split_on_aux sep cur (c # cs) =
     (if c = sep then cur # split_on_aux sep [] cs else split_on_aux sep (cur @ [c]) cs)"

definition split_on :: "char \<Rightarrow> string \<Rightarrow> string list" where
  "split_on sep s = split_on_aux sep [] s"

text \<open>\<^verbatim>\<open>re.sub(r"\s+", " ", s)\<close>: every maximal run of whitespace becomes one space.\<close>

function sub_ws :: "string \<Rightarrow> string" where
  "sub_ws [] = []"
| "sub_ws (c # cs) =
     (if is_space c then CHR '' '' # sub_ws (dropWhile is_space cs) else c # sub_ws cs)"
  by pat_completeness auto
termination
  by (relation "measure length") (auto simp add: length_dropWhile_le le_imp_less_Suc)

text \<open>
  \<^verbatim>\<open>PRICE_PATTERN = (\d[\d\.,]*)\s*(dkk|kr\.?|\bkr\b)\<close>, ignoring case. At a position
  the number and the whitespace are taken greedily, and giving characters back never
  helps, since the currency starts with a letter. Of the alternatives, \<open>kr\.?\<close> matches
  wherever \<open>\bkr\b\<close> would, and nothing follows the group, so the third is never used.
  \<open>currency_len\<close> is the length of the currency at the front of a string,
  \<open>PRICE_match_at\<close> the length of a match at the front, and \<open>PRICE_search\<close> the start and
  end of the leftmost match.
\<close>

definition currency_len :: "string \<Rightarrow> nat option" where
  "currency_len s =
     (if lower (take 3 s) = ''dkk'' then Some 3
      else if lower (take 2 s) = ''kr'' then
        (if startswith (drop 2 s) ''.'' then Some 3 else Some 2)
      else None)"

definition is_price_tail :: "char \<Rightarrow> bool" where
  "is_price_tail c = (is_decimal c \<or> c = CHR ''.'' \<or> c = CHR '','')"

definition PRICE_match_at :: "string \<Rightarrow> nat option" where
  "PRICE_match_at s =
     (case s of
        [] \<Rightarrow> None
      | c # cs \<Rightarrow>
          if \<not> is_decimal c then None
          else let num = takeWhile is_price_tail cs;
                   after_num = dropWhile is_price_tail cs;
                   ws = takeWhile is_space after_num;
                   after_ws = dropWhile is_space after_num
               in (case currency_len after_ws of
                     None \<Rightarrow> None
                   | Some k \<Rightarrow> Some (1 + length num + length ws + k)))"

fun PRICE_search_from :: "nat \<Rightarrow> string \<Rightarrow> (nat \<times> nat) option" where
  "PRICE_search_from i [] = None"
| "PRICE_search_from i (c # cs) =
     (case PRICE_match_at (c # cs) of
        Some n \<Rightarrow> Some (i, i + n)
      | None \<Rightarrow> PRICE_search_from (Suc i) cs)"

definition PRICE_search :: "string \<Rightarrow> (nat \<times> nat) option" where
  "PRICE_search line = PRICE_search_from 0 line"

definition LABEL_STOP :: "string list" where
  "LABEL_STOP = [''pris'', ''price'', ''abonnement'', ''billedpakker'', ''certificering'',
     ''pakker'', ''pakken'']"

definition CONTINUATION_PREFIXES :: "string list" where
  "CONTINUATION_PREFIXES = [''inkl'', ''inkl.'', ''inklusive'', ''pr.'', ''pr'', ''per'', ''/'']"

text \<open>
  The Markdown link pattern \<^verbatim>\<open>\[([^\]]+)\]\([^)]+\)\<close> at the front of a string: the first
  group and the length of the match. Both classes stop at the bracket that must follow,
  so again only the greedy choice can match.
\<close>

definition link_match_at :: "string \<Rightarrow> (string \<times> nat) option" where
  "link_match_at s =
     (case s of
        [] \<Rightarrow> None
      | c # r \<Rightarrow>
          if c \<noteq> CHR ''['' then None
          else let g = takeWhile (\<lambda>x. x \<noteq> CHR '']'') r;
                   r1 = dropWhile (\<lambda>x. x \<noteq> CHR '']'') r
               in if g \<noteq> [] \<and> startswith r1 '']('' then
                    let u = takeWhile (\<lambda>x. x \<noteq> CHR '')'') (drop 2 r1);
                        r2 = dropWhile (\<lambda>x. x \<noteq> CHR '')'') (drop 2 r1)
                    in if u \<noteq> [] \<and> r2 \<noteq> [] then Some (g, Suc (length g + 2 + length u + 1))
                       else None
                  else None)"

text \<open>
  \<^verbatim>\<open>re.sub\<close> of the link pattern by its first group. \<open>skip\<close> counts the characters of
  the current match still to pass over.
\<close>

fun sub_links_aux :: "nat \<Rightarrow> string \<Rightarrow> string" where
  "sub_links_aux skip [] = []"
| "sub_links_aux (Suc skip) (c # cs) = sub_links_aux skip cs"
| "sub_links_aux 0 (c # cs) =
     (case link_match_at (c # cs) of
        Some (g, n) \<Rightarrow> g @ sub_links_aux (n - 1) cs
      | None \<Rightarrow> c # sub_links_aux 0 cs)"

definition sub_links :: "string \<Rightarrow> string" where
  "sub_links s = sub_links_aux 0 s"

text \<open>
  The characters \<^verbatim>\<open>strip("-:\<bullet>\t ")\<close> removes; the bullet is outside the code points of
  the model.
\<close>

definition label_strip_chars :: string where
  "label_strip_chars = [CHR ''-'', CHR '':'', CHR 0x09, CHR '' '']"

definition clean_text :: "string \<Rightarrow> string" where
  "clean_text t =
     (let t1 = sub_links t;
          t2 = replace (replace t1 ''**'' '''') ''*'' '''';
          t3 = strip_chars label_strip_chars (strip t2)
      in strip (sub_ws t3))"

definition is_letter_re :: "char \<Rightarrow> bool" where
  "is_letter_re c = (is_ascii_lower c \<or> is_ascii_upper c \<or> cp c \<in> {230, 248, 229, 198, 216, 197})"

definition has_letters :: "string \<Rightarrow> bool" where
  "has_letters t = list_ex is_letter_re t"

definition is_stop_label :: "string \<Rightarrow> bool" where
  "is_stop_label t = (strip_chars [CHR '' '', CHR '':'', CHR 0x09] (lower t) \<in> set LABEL_STOP)"

definition extract_price_from_line :: "string \<Rightarrow> string option" where
  "extract_price_from_line line =
     (case PRICE_search line of
        None \<Rightarrow> None
      | Some (s, e) \<Rightarrow>
          let price = strip (take (e - s) (drop s line));
              suffix = strip (drop e line)
          in if suffix \<noteq> [] then
               let suffix_words = split_ws suffix
               in if suffix_words \<noteq> []
                     \<and> (startswith (hd suffix_words) ''/''
                        \<or> startswith (lower (hd suffix_words)) ''pr''
                        \<or> startswith (lower (hd suffix_words)) ''per'')
                  then Some (strip (price @ '' '' @ join '' '' (take 2 suffix_words)))
                  else Some price
             else Some price)"

text \<open>The lowered names \<^verbatim>\<open>_name_from_line\<close> rejects; \<open>\<aring>\<close> is the code point 229.\<close>

definition year_suffixes :: "string list" where
  "year_suffixes = [''/ '' @ [CHR 0xE5] @ ''r'', ''/ aar'', ''/'' @ [CHR 0xE5] @ ''r'',
     ''pr. '' @ [CHR 0xE5] @ ''r'', ''pr '' @ [CHR 0xE5] @ ''r'']"

definition name_from_line :: "string \<Rightarrow> string option \<Rightarrow> string" where
  "name_from_line line price =
     (if line = [] then ''''
      else let cleaned0 = clean_text line;
               cleaned1 = (case price of
                             None \<Rightarrow> cleaned0
                           | Some p \<Rightarrow> if p \<noteq> [] then strip (replace cleaned0 p '''') else cleaned0);
               cleaned = strip_chars label_strip_chars cleaned1
           in if cleaned = [] then ''''
              else let lowered = lower cleaned
                   in if is_stop_label lowered then ''''
                      else if lowered \<in> set year_suffixes then ''''
                      else if \<not> has_letters cleaned then ''''
                      else if length cleaned \<le> 2 then ''''
                      else cleaned)"

text \<open>
  The loop of \<^verbatim>\<open>_collect_label\<close> walks from the line before \<open>idx\<close> back to the first
  line; here it runs over those lines in that order, with the labels collected so far.
\<close>

fun collect_label_loop :: "nat \<Rightarrow> string list \<Rightarrow> string list \<Rightarrow> string list" where
  "collect_label_loop max_lines [] collected = collected"
| "collect_label_loop max_lines (l # earlier) collected =
     (if \<not> length collected < max_lines then collected
      else let raw = strip l
           in if raw = [] then
                (if collected \<noteq> [] then collected
                 else collect_label_loop max_lines earlier collected)
              else if startswith raw ''#'' then collect_label_loop max_lines earlier collected
              else let candidate = clean_text raw
                   in if candidate = [] then collect_label_loop max_lines earlier collected
                      else if is_stop_label candidate then collect_label_loop max_lines earlier collected
                      else collect_label_loop max_lines earlier (candidate # collected))"

definition collect_label :: "string list \<Rightarrow> nat \<Rightarrow> nat \<Rightarrow> string" where
  "collect_label lines idx max_lines =
     strip (join '' '' (collect_label_loop max_lines (rev (take idx lines)) []))"

definition parse_table_row :: "string \<Rightarrow> string list option" where
  "parse_table_row line =
     (if CHR ''|'' \<notin> set line then None
      else let stripped = strip line
           in if stripped = [] then None
              else if list_all (\<lambda>c. c \<in> set ''|-: '') stripped then None
              else Some (filter (\<lambda>cell. cell \<noteq> [])
                     (map strip (split_on (CHR ''|'') (strip_chars ''|'' stripped)))))"

text \<open>An extracted item: the dictionary \<^verbatim>\<open>extract_price_items\<close> builds, as a record.\<close>

record PriceItem =
  item_name :: string
  item_price :: string
  item_path :: string
  item_heading :: string
  item_line_start :: int
  item_line_end :: int

text \<open>The name loop over the cells of a table row: the first other cell with a valid label.\<close>

fun first_name_cell :: "string \<Rightarrow> string list \<Rightarrow> string" where
  "first_name_cell price_cell [] = ''''"
| "first_name_cell price_cell (cell # cells) =
     (if cell = price_cell then first_name_cell price_cell cells
      else let candidate = name_from_line cell None
           in if candidate \<noteq> [] \<and> \<not> is_stop_label candidate then candidate
              else first_name_cell price_cell cells)"

definition mk_item :: "Section \<Rightarrow> nat \<Rightarrow> string \<Rightarrow> string \<Rightarrow> PriceItem" where
  "mk_item section idx name price =
     \<lparr>item_name = name, item_price = price, item_path = path section,
      item_heading = heading section,
      item_line_start = line_start section + max (int idx - 1) 0,
      item_line_end = line_start section + int idx\<rparr>"

text \<open>The body of the loop over the lines of a section: the items line \<open>idx\<close> adds.\<close>

definition items_of_line :: "Section \<Rightarrow> string list \<Rightarrow> nat \<Rightarrow> string \<Rightarrow> PriceItem list" where
  "items_of_line section lines idx line =
     (case parse_table_row line of
        Some (c # cs) \<Rightarrow>
          (case find (\<lambda>cell. PRICE_search cell \<noteq> None) (c # cs) of
             None \<Rightarrow> []
           | Some price_cell \<Rightarrow>
               let price = extract_price_from_line price_cell;
                   name0 = first_name_cell price_cell (c # cs);
                   name = (if name0 = [] then collect_label lines idx 4 else name0)
               in (case price of
                     None \<Rightarrow> []
                   | Some p \<Rightarrow> if name \<noteq> [] \<and> p \<noteq> [] then [mk_item section idx name p] else []))
      | _ \<Rightarrow>
          (case extract_price_from_line line of
             None \<Rightarrow> []
           | Some price \<Rightarrow>
               if price = [] then []
               else let name0 = name_from_line line (Some price);
                        name1 = (if name0 = [] then collect_label lines idx 4 else name0)
                    in if name1 \<noteq> [] then
                         let name =
                           (if list_ex (\<lambda>p. startswith (lower name1) p) CONTINUATION_PREFIXES then
                              let extended = collect_label lines idx 4
                              in if extended \<noteq> [] \<and> extended \<noteq> name1 then extended else name1
                            else name1)
                         in [mk_item section idx name price]
                       else []))"

fun items_of_lines :: "Section \<Rightarrow> string list \<Rightarrow> nat \<Rightarrow> string list \<Rightarrow> PriceItem list" where
  "items_of_lines section lines idx [] = []"
| "items_of_lines section lines idx (line # rest) =
     items_of_line section lines idx line @ items_of_lines section lines (Suc idx) rest"

fun items_of_sections :: "Section list \<Rightarrow> PriceItem list" where
  "items_of_sections [] = []"
| "items_of_sections (section # rest) =
     items_of_lines section (splitlines (text section)) 0 (splitlines (text section))
     @ items_of_sections rest"

definition item_key :: "PriceItem \<Rightarrow> string \<times> string \<times> string \<times> string \<times> int" where
  "item_key item =
     (item_path item, item_heading item, item_name item, item_price item, item_line_start item)"

text \<open>The deduplication loop, with the keys seen so far.\<close>

fun dedupe :: "(string \<times> string \<times> string \<times> string \<times> int) list \<Rightarrow> PriceItem list \<Rightarrow> PriceItem list" where
  "dedupe seen [] = []"
| "dedupe seen (item # items) =
     (if item_key item \<in> set seen then dedupe seen items
      else item # dedupe (item_key item # seen) items)"

definition extract_price_items :: "Section list \<Rightarrow> PriceItem list" where
  "extract_price_items secs =
     sort_key (\<lambda>item. (item_path item, item_line_start item)) (dedupe [] (items_of_sections secs))"

section \<open>Sources of a reply (app.py)\<close>

text \<open>The supplied snippets (vault\_tools.py); the fields carry the prefix \<open>s_\<close> here.\<close>

record Snippet =
  s_path :: string
  s_heading :: string
  s_line_start :: int
  s_line_end :: int
  excerpt :: string
  s_score :: int

text \<open>\<^verbatim>\<open>str(n)\<close> for an integer, as an f-string formats it.\<close>

fun show_nat :: "nat \<Rightarrow> string" where
  "show_nat n = (if n < 10 then [char_of (48 + n)] else show_nat (n div 10) @ [char_of (48 + n mod 10)])"

definition show_int :: "int \<Rightarrow> string" where
  "show_int i = (if i < 0 then ''-'' @ show_nat (nat (- i)) else show_nat (nat i))"

text \<open>\<^verbatim>\<open>s.split(sep)[0]\<close>: the text before the first \<open>sep\<close>, all of \<open>s\<close> when there is none.\<close>

fun before_first :: "string \<Rightarrow> string \<Rightarrow> string" where
  "before_first sep [] = []"
| "before_first sep (c # cs) = (if startswith (c # cs) sep then [] else c # before_first sep cs)"

text \<open>The loop of \<^verbatim>\<open>parse_sources\<close> over the lines, with the \<open>capture\<close> flag.\<close>

fun parse_sources_loop :: "bool \<Rightarrow> string list \<Rightarrow> string list" where
  "parse_sources_loop capture [] = []"
| "parse_sources_loop capture (line # rest) =
     (if startswith (strip line) ''Sources:'' then parse_sources_loop True rest
      else if capture then
        (if strip line = [] then parse_sources_loop capture rest
         else if startswith (strip line) ''-'' then drop 2 (strip line) # parse_sources_loop capture rest
         else [])
      else parse_sources_loop capture rest)"

definition parse_sources :: "string \<Rightarrow> string list" where
  "parse_sources t =
     (if \<not> contains t ''Sources:'' then [] else parse_sources_loop False (splitlines t))"

definition citation :: "Snippet \<Rightarrow> string" where
  "citation snippet =
     s_path snippet @ ''#'' @ s_heading snippet @ '' (lines '' @ show_int (s_line_start snippet)
       @ ''-'' @ show_int (s_line_end snippet) @ '')''"

definition ensure_sources :: "string \<Rightarrow> Snippet list \<Rightarrow> string \<times> string list" where
  "ensure_sources response snippets =
     (let sources = parse_sources response
      in if sources \<noteq> [] then (response, sources)
         else let base = (if contains response ''Sources:''
                          then rstrip (before_first ''Sources:'' response) else response);
                  fallback_sources = map citation (py_slice snippets 0 3)
              in if fallback_sources \<noteq> []
                 then (rstrip base @ nl @ nl @ ''Sources:'' @ nl
                         @ join nl (map (\<lambda>src. ''- '' @ src) fallback_sources), fallback_sources)
                 else (response, fallback_sources))"

section \<open>Titles and aliases of a note (vault\_index.py)\<close>

text \<open>\<^verbatim>\<open>s.rfind(c)\<close> for one character: the last index of \<open>c\<close>, or -1.\<close>

definition rfind_char :: "string \<Rightarrow> char \<Rightarrow> int" where
  "rfind_char s c =
     (case filter (\<lambda>i. s ! i = c) (rev [0..<length s]) of [] \<Rightarrow> - 1 | i # _ \<Rightarrow> int i)"

text \<open>
  \<^verbatim>\<open>os.path.splitext(p)[0]\<close> with the separator \<open>/\<close>: the extension starts at the last
  dot, when that dot comes after the last separator and the name has a character other
  than a dot before it; else there is no extension.
\<close>

definition splitext_root :: "string \<Rightarrow> string" where
  "splitext_root p =
     (let sepIndex = rfind_char p CHR ''/'';
          dotIndex = rfind_char p CHR ''.''
      in if dotIndex > sepIndex
            \<and> list_ex (\<lambda>c. c \<noteq> CHR ''.'') (py_slice p (sepIndex + 1) dotIndex)
         then py_slice p 0 dotIndex else p)"

text \<open>
  \<^verbatim>\<open>_detect_title\<close>: the title of the first heading line that has one; without such a
  line, the file name without its extension, \<open>_\<close> and \<open>-\<close> turned into spaces.
\<close>

fun detect_title :: "string list \<Rightarrow> string \<Rightarrow> string" where
  "detect_title [] filename =
     replace (replace (splitext_root filename) ''_'' '' '') ''-'' '' ''"
| "detect_title (line # rest) filename =
     (case HEADING_RE_match (strip line) of
        None \<Rightarrow> detect_title rest filename
      | Some (h, t) \<Rightarrow> if strip t \<noteq> [] then strip t else detect_title rest filename)"

text \<open>
  \<^verbatim>\<open>re.sub\<close> of a pattern of two one-character groups by \<^verbatim>\<open>\1 \2\<close>: matches are found
  left to right and do not overlap, so after a match the search goes on behind its
  second character.
\<close>

fun sub_pair :: "(char \<Rightarrow> bool) \<Rightarrow> (char \<Rightarrow> bool) \<Rightarrow> string \<Rightarrow> string" where
  "sub_pair P Q (a # b # cs) =
     (if P a \<and> Q b then a # CHR '' '' # b # sub_pair P Q cs else a # sub_pair P Q (b # cs))"
| "sub_pair P Q cs = cs"

text \<open>
  The classes of \<^verbatim>\<open>_split_camel\<close>: \<^verbatim>\<open>[a-z\<ae>\<oslash>\<aring>]\<close>, \<^verbatim>\<open>[A-Z\<AE>\<Oslash>\<Aring>]\<close>, \<^verbatim>\<open>[0-9]\<close> and the union of the
  first two.
\<close>

definition is_camel_lower :: "char \<Rightarrow> bool" where
  "is_camel_lower c = (is_ascii_lower c \<or> cp c \<in> {230, 248, 229})"

definition is_camel_upper :: "char \<Rightarrow> bool" where
  "is_camel_upper c = (is_ascii_upper c \<or> cp c \<in> {198, 216, 197})"

definition is_camel_letter :: "char \<Rightarrow> bool" where
  "is_camel_letter c = (is_ascii_upper c \<or> is_ascii_lower c \<or> cp c \<in> {230, 248, 229, 198, 216, 197})"

definition split_camel :: "string \<Rightarrow> string" where
  "split_camel t =
     (let t1 = sub_pair is_camel_lower is_camel_upper t;
          t2 = sub_pair is_decimal is_camel_letter t1
      in sub_pair is_camel_letter is_decimal t2)"

text \<open>\<^verbatim>\<open>str.isdigit\<close>: not empty, and digits only.\<close>

definition isdigit :: "string \<Rightarrow> bool" where
  "isdigit s = (s \<noteq> [] \<and> list_all is_digit_char s)"

text \<open>The body of the second loop of \<^verbatim>\<open>_build_aliases\<close>: the aliases one variant adds.\<close>

definition aliases_of :: "string \<Rightarrow> string set" where
  "aliases_of variant =
     (let cleaned = strip (sub_ws variant)
      in if cleaned = [] then {}
         else let lowered = lower cleaned;
                  found = WORD_RE_findall lowered;
                  tokens = (if length found \<ge> 2 \<and> found ! 0 = ''gs'' \<and> isdigit (found ! 1)
                            then (''gs'' @ found ! 1) # py_slice found 2 (int (length found))
                            else found)
              in {lowered}
                 \<union> (if length tokens \<ge> 2 then {join '' '' (py_slice tokens 0 2)} else {})
                 \<union> (if length tokens \<ge> 3 then {join '' '' (py_slice tokens 0 3)} else {})
                 \<union> (if tokens \<noteq> [] \<and> startswith (tokens ! 0) ''gs1'' \<and> length tokens \<ge> 2
                     then {join '' '' (py_slice tokens 1 3)} else {}))"

text \<open>
  \<^verbatim>\<open>_build_aliases\<close>. The variants, their expansions and the aliases are Python sets;
  the result is the sorted list of the aliases, strings being compared by code points.
\<close>

definition build_aliases :: "string \<Rightarrow> string \<Rightarrow> string list" where
  "build_aliases note_title filename =
     (let base = splitext_root filename;
          variants = {note_title, base, replace base ''-'' '' '', replace base ''_'' '' ''};
          expanded = (\<Union>variant \<in> variants. if variant = [] then {} else {variant, split_camel variant});
          aliases = (\<Union>variant \<in> expanded. aliases_of variant)
      in sorted_list_of_set aliases)"

text \<open>
  A list of sections covers the lines \<open>a\<close> to \<open>b\<close> when the first starts at \<open>a\<close>, each
  is a non-empty range, each next one starts right after the one before, and the last
  ends at \<open>b\<close>.
\<close>

fun covers :: "int \<Rightarrow> int \<Rightarrow> Section list \<Rightarrow> bool" where
  "covers a b [] = (a = b + 1)"
| "covers a b (s # ss) = (line_start s = a \<and> a \<le> line_end s \<and> covers (line_end s + 1) b ss)"

section \<open>Sections of a document\<close>

lemma boundaries_from_empty:
  "boundaries_from k ls = [] \<longleftrightarrow> (\<forall>l \<in> set ls. heading_of l = None)"
  by (induction ls arbitrary: k) (auto split: option.splits)

text \<open>
  C7: a non-empty document without heading lines gives exactly one section, headed
  \<open>(top)\<close>, from line 1 to the number of lines; a document of zero lines gives no section.
\<close>

theorem split_sections_no_heading:
  "(lines \<noteq> [] \<and> (\<forall>l \<in> set lines. heading_of l = None) \<longrightarrow>
      (\<exists>s. split_sections p lines = [s] \<and> heading s = ''(top)'' \<and> line_start s = 1
         \<and> line_end s = int (length lines) \<and> text s = strip (join nl lines) \<and> path s = p))
   \<and> split_sections p [] = []"
proof -
  have "boundaries_from 0 lines = []" if "\<forall>l \<in> set lines. heading_of l = None"
    using that by (simp add: boundaries_from_empty)
  then show ?thesis
    by (simp add: split_sections_def)
qed

theorem split_sections_no_heading_witness:
  "heading_of ''intro'' = None \<and> heading_of ''  more text'' = None
   \<and> (\<exists>s. split_sections ''a.md'' [''intro'', ''  more text''] = [s] \<and> heading s = ''(top)''
         \<and> line_start s = 1 \<and> line_end s = 2 \<and> text s = ''intro'' @ nl @ ''  more text'')"
proof -
  have h: "heading_of ''intro'' = None" "heading_of ''  more text'' = None"
    by (simp_all add: heading_of_def HEADING_RE_match_def strip_def strip_with_def
        lstrip_with_def rstrip_with_def is_space_def cp_def)
  have t: "strip (join nl [''intro'', ''  more text'']) = ''intro'' @ nl @ ''  more text''"
    by (simp add: strip_def strip_with_def lstrip_with_def rstrip_with_def is_space_def
        cp_def nl_def)
  from split_sections_no_heading [of "[''intro'', ''  more text'']" "''a.md''"] h t
  show ?thesis by auto
qed

lemma boundaries_from_bounds:
  "(i, h) \<in> set (boundaries_from k ls) \<Longrightarrow> k \<le> i \<and> i < k + length ls"
  by (induction ls arbitrary: k) (fastforce split: option.splits)+

lemma boundaries_from_sorted:
  "sorted_wrt (<) (map fst (boundaries_from k ls))"
proof (induction ls arbitrary: k)
  case Nil
  then show ?case by simp
next
  case (Cons l ls)
  have "k < i" if "(i, h) \<in> set (boundaries_from (Suc k) ls)" for i h
    using boundaries_from_bounds [OF that] by simp
  with Cons show ?case
    by (auto split: option.splits)
qed

lemma sections_loop_covers:
  "bs \<noteq> [] \<Longrightarrow> sorted_wrt (<) (map fst bs) \<Longrightarrow> \<forall>i \<in> set (map fst bs). i < length lines \<Longrightarrow>
   covers (int (fst (hd bs)) + 1) (int (length lines)) (sections_loop p lines bs)"
proof (induction bs)
  case Nil
  then show ?case by simp
next
  case (Cons b bs)
  obtain s h where b: "b = (s, h)" by (cases b)
  show ?case
  proof (cases bs)
    case Nil
    with Cons.prems b show ?thesis by (simp add: Let_def)
  next
    case (Cons c cs)
    obtain n g where c: "c = (n, g)" by (cases c)
    from Cons.prems b Cons c have "s < n" by simp
    moreover have "covers (int (fst (hd bs)) + 1) (int (length lines)) (sections_loop p lines bs)"
      using Cons.IH Cons.prems Cons by simp
    ultimately show ?thesis using b Cons c by (simp add: Let_def)
  qed
qed

lemma split_sections_covers:
  assumes "lines \<noteq> []"
  shows "covers 1 (int (length lines)) (split_sections p lines)"
proof (cases "boundaries_from 0 lines = []")
  case True
  with assms show ?thesis by (cases lines) (simp_all add: split_sections_def)
next
  case False
  let ?bs = "boundaries_from 0 lines"
  have "\<forall>i \<in> set (map fst ?bs). i < length lines"
    using boundaries_from_bounds [of _ _ 0 lines] by auto
  then have c: "covers (int (fst (hd ?bs)) + 1) (int (length lines)) (sections_loop p lines ?bs)"
    using sections_loop_covers [OF False boundaries_from_sorted] by blast
  show ?thesis
  proof (cases "fst (hd ?bs) > 0")
    case True
    with False assms c show ?thesis by (simp add: split_sections_def Let_def)
  next
    case False
    then have "fst (hd ?bs) = 0" by simp
    with \<open>?bs \<noteq> []\<close> assms c show ?thesis by (simp add: split_sections_def Let_def)
  qed
qed

lemma covers_le: "covers a b ss \<Longrightarrow> a \<le> b + 1"
proof (induction ss arbitrary: a)
  case Nil
  then show ?case by simp
next
  case (Cons s ss)
  from Cons.prems have "covers (line_end s + 1) b ss" "a \<le> line_end s" by simp_all
  with Cons.IH [of "line_end s + 1"] show ?case by simp
qed

lemma covers_chain:
  "covers a b ss \<Longrightarrow> ss \<noteq> [] \<Longrightarrow>
   line_start (hd ss) = a \<and> line_end (last ss) = b
   \<and> (\<forall>i. Suc i < length ss \<longrightarrow> line_start (ss ! Suc i) = line_end (ss ! i) + 1)
   \<and> (\<forall>s \<in> set ss. line_start s \<le> line_end s)"
proof (induction ss arbitrary: a)
  case Nil
  then show ?case by simp
next
  case (Cons s ss)
  show ?case
  proof (cases ss)
    case Nil
    with Cons.prems show ?thesis by simp
  next
    case (Cons t ts)
    with Cons.prems Cons.IH [of "line_end s + 1"]
    have ih: "line_start (hd ss) = line_end s + 1" "line_end (last ss) = b"
      "\<forall>i. Suc i < length ss \<longrightarrow> line_start (ss ! Suc i) = line_end (ss ! i) + 1"
      "\<forall>s \<in> set ss. line_start s \<le> line_end s"
      by simp_all
    have "line_start ((s # ss) ! Suc i) = line_end ((s # ss) ! i) + 1" if "Suc i < length (s # ss)" for i
    proof (cases i)
      case 0
      with ih(1) Cons show ?thesis by simp
    next
      case (Suc j)
      with that ih(3) show ?thesis by simp
    qed
    with ih Cons.prems Cons show ?thesis by simp
  qed
qed

lemma slice_index_nat: "0 \<le> i \<Longrightarrow> i \<le> int n \<Longrightarrow> slice_index n i = nat i"
  by (simp add: slice_index_def)

lemma py_slice_append:
  assumes "0 \<le> a" "a \<le> e" "e \<le> b" "b \<le> int (length xs)"
  shows "py_slice xs a e @ py_slice xs e b = py_slice xs a b"
proof -
  define a' e' b' where "a' = nat a" and "e' = nat e" and "b' = nat b"
  with assms have le: "a' \<le> e'" "e' \<le> b'" "b' \<le> length xs" by auto
  have s: "py_slice xs a e = take (e' - a') (drop a' xs)" "py_slice xs e b = take (b' - e') (drop e' xs)"
    "py_slice xs a b = take (b' - a') (drop a' xs)"
    using assms by (simp_all add: py_slice_def slice_index_nat a'_def e'_def b'_def Let_def)
  have "b' - a' = (e' - a') + (b' - e')" using le by simp
  then have "take (b' - a') (drop a' xs) = take (e' - a') (drop a' xs) @ take (b' - e') (drop (e' - a') (drop a' xs))"
    by (simp only: take_add)
  with s le show ?thesis by simp
qed

lemma covers_concat:
  "covers a b ss \<Longrightarrow> 1 \<le> a \<Longrightarrow> b \<le> int (length xs) \<Longrightarrow>
   concat (map (\<lambda>s. py_slice xs (line_start s - 1) (line_end s)) ss) = py_slice xs (a - 1) b"
proof (induction ss arbitrary: a)
  case Nil
  then show ?case by (simp add: py_slice_def slice_index_nat)
next
  case (Cons s ss)
  from Cons.prems have c: "covers (line_end s + 1) b ss" and s: "line_start s = a" "a \<le> line_end s"
    by simp_all
  from covers_le [OF c] have le: "line_end s \<le> b" by simp
  have "concat (map (\<lambda>s. py_slice xs (line_start s - 1) (line_end s)) ss) = py_slice xs (line_end s) b"
    using Cons.IH [OF c] Cons.prems s by simp
  moreover have "py_slice xs (a - 1) (line_end s) @ py_slice xs (line_end s) b = py_slice xs (a - 1) b"
    using Cons.prems s le by (intro py_slice_append) simp_all
  ultimately show ?case using s by simp
qed

lemma py_slice_all: "py_slice xs 0 (int (length xs)) = xs"
  by (simp add: py_slice_def slice_index_def)

lemma sections_loop_text:
  "s \<in> set (sections_loop p lines bs) \<Longrightarrow>
   text s = strip (join nl (py_slice lines (line_start s - 1) (line_end s)))"
  by (induction p lines bs rule: sections_loop.induct) (auto simp add: Let_def)

lemma split_sections_text:
  "s \<in> set (split_sections p lines) \<Longrightarrow>
   text s = strip (join nl (py_slice lines (line_start s - 1) (line_end s)))"
  by (auto simp add: split_sections_def Let_def py_slice_all sections_loop_text split: if_splits)

lemma split_sections_text_map:
  "map text (split_sections p lines) =
   map (\<lambda>s. strip (join nl (py_slice lines (line_start s - 1) (line_end s)))) (split_sections p lines)"
  using split_sections_text by simp

text \<open>
  C2: for a non-empty list of lines the line ranges of the sections are contiguous and
  cover lines 1 to the line count: the first section starts at line 1, each next section
  starts one line after the end of the one before, the last ends at the line count, and
  no range is empty.
\<close>

theorem split_sections_ranges:
  assumes "lines \<noteq> []"
  shows "split_sections p lines \<noteq> []
    \<and> line_start (hd (split_sections p lines)) = 1
    \<and> (\<forall>i. Suc i < length (split_sections p lines) \<longrightarrow>
          line_start (split_sections p lines ! Suc i) = line_end (split_sections p lines ! i) + 1)
    \<and> line_end (last (split_sections p lines)) = int (length lines)
    \<and> (\<forall>s \<in> set (split_sections p lines). line_start s \<le> line_end s)"
proof -
  have c: "covers 1 (int (length lines)) (split_sections p lines)"
    using assms by (rule split_sections_covers)
  have ne: "split_sections p lines \<noteq> []"
  proof
    assume "split_sections p lines = []"
    with c have "int (length lines) = 0" by simp
    with assms show False by simp
  qed
  from covers_chain [OF c ne] ne show ?thesis by simp
qed

theorem split_sections_ranges_witness:
  "[''x'', ''# A'', '''', '' ## B c '', ''z''] \<noteq> []
   \<and> length (split_sections ''n.md'' [''x'', ''# A'', '''', '' ## B c '', ''z'']) = 3
   \<and> line_start (hd (split_sections ''n.md'' [''x'', ''# A'', '''', '' ## B c '', ''z''])) = 1
   \<and> line_start (split_sections ''n.md'' [''x'', ''# A'', '''', '' ## B c '', ''z''] ! Suc 0)
       = line_end (split_sections ''n.md'' [''x'', ''# A'', '''', '' ## B c '', ''z''] ! 0) + 1
   \<and> line_start (split_sections ''n.md'' [''x'', ''# A'', '''', '' ## B c '', ''z''] ! Suc 1)
       = line_end (split_sections ''n.md'' [''x'', ''# A'', '''', '' ## B c '', ''z''] ! 1) + 1
   \<and> line_end (last (split_sections ''n.md'' [''x'', ''# A'', '''', '' ## B c '', ''z''])) = 5"
proof -
  have ne: "[''x'', ''# A'', '''', '' ## B c '', ''z''] \<noteq> []" by simp
  have len: "length (split_sections ''n.md'' [''x'', ''# A'', '''', '' ## B c '', ''z'']) = 3"
    by code_simp
  from split_sections_ranges [OF ne, of "''n.md''"] len show ?thesis by simp
qed

text \<open>
  C1, as stated, fails: the text of a section is stripped, so a blank line at the edge of
  a section is in no section's text. The document \<open># A\<close>, blank line, \<open># B\<close> has a heading
  line, and the lines of its sections' texts are \<open># A\<close> and \<open># B\<close> only.
\<close>

theorem split_sections_text_counterexample:
  "heading_of ''# A'' = Some ''A''
   \<and> map text (split_sections ''n.md'' [''# A'', '''', ''# B'']) = [''# A'', ''# B'']
   \<and> concat (map (\<lambda>s. splitlines (text s)) (split_sections ''n.md'' [''# A'', '''', ''# B'']))
       \<noteq> [''# A'', '''', ''# B'']"
  by code_simp

text \<open>
  C1, amended: for a document with a heading line, the line ranges of the sections, taken
  from the document in order, reproduce every line exactly once, and the text of each
  section is its range joined by line feeds, with the whitespace at both ends stripped.
\<close>

theorem split_sections_slices:
  assumes "\<exists>l \<in> set lines. heading_of l \<noteq> None"
  shows "concat (map (\<lambda>s. py_slice lines (line_start s - 1) (line_end s)) (split_sections p lines)) = lines
    \<and> map text (split_sections p lines) =
        map (\<lambda>s. strip (join nl (py_slice lines (line_start s - 1) (line_end s)))) (split_sections p lines)"
proof -
  from assms have ne: "lines \<noteq> []" by auto
  have "concat (map (\<lambda>s. py_slice lines (line_start s - 1) (line_end s)) (split_sections p lines))
      = py_slice lines (1 - 1) (int (length lines))"
    using split_sections_covers [OF ne] by (rule covers_concat) simp_all
  then show ?thesis
    using split_sections_text_map by (simp add: py_slice_all)
qed

theorem split_sections_slices_witness:
  "heading_of ''# A'' \<noteq> None
   \<and> concat (map (\<lambda>s. py_slice [''# A'', '''', ''# B''] (line_start s - 1) (line_end s))
        (split_sections ''n.md'' [''# A'', '''', ''# B''])) = [''# A'', '''', ''# B'']
   \<and> map text (split_sections ''n.md'' [''# A'', '''', ''# B'']) = [''# A'', ''# B'']"
proof -
  have h: "heading_of ''# A'' \<noteq> None" by code_simp
  then have "\<exists>l \<in> set [''# A'', '''', ''# B'']. heading_of l \<noteq> None" by simp
  from split_sections_slices [OF this, of "''n.md''"] h
  have "concat (map (\<lambda>s. py_slice [''# A'', '''', ''# B''] (line_start s - 1) (line_end s))
        (split_sections ''n.md'' [''# A'', '''', ''# B''])) = [''# A'', '''', ''# B'']"
    by simp
  moreover have "map text (split_sections ''n.md'' [''# A'', '''', ''# B'']) = [''# A'', ''# B'']"
    by code_simp
  ultimately show ?thesis using h by simp
qed

lemma runs_aux_nonempty: "[] \<notin> set (runs_aux P cur s)"
  by (induction s arbitrary: cur) auto

lemma runs_aux_chars: "t \<in> set (runs_aux P cur s) \<Longrightarrow> set t \<subseteq> set cur \<union> set s"
proof (induction s arbitrary: cur)
  case Nil
  then show ?case by (auto split: if_splits)
next
  case (Cons c cs)
  show ?case
  proof (cases "P c")
    case True
    with Cons.prems have "t \<in> set (runs_aux P (cur @ [c]) cs)" by simp
    from Cons.IH [OF this] show ?thesis by auto
  next
    case False
    with Cons.prems have "t = cur \<or> t \<in> set (runs_aux P [] cs)" by (auto split: if_splits)
    with Cons.IH [of "[]"] show ?thesis by auto
  qed
qed

lemma lower_char_idem: "lower_char (lower_char c) = lower_char c"
proof -
  have "of_char (char_of (of_char c + 32 :: nat)) = (of_char c + 32 :: nat)"
    if "(of_char c :: nat) \<le> 222" 
    using that by (simp add: of_char_of)
  then show ?thesis
    by (auto simp add: lower_char_def cp_def is_ascii_upper_def Let_def)
qed

lemma lower_idem: "lower (lower s) = lower s"
  by (simp add: lower_def lower_char_idem)

lemma findall_lower: "map lower (WORD_RE_findall (lower q)) = WORD_RE_findall (lower q)"
proof -
  have "lower t = t" if "t \<in> set (WORD_RE_findall (lower q))" for t
  proof -
    from that have "set t \<subseteq> set (lower q)"
      using runs_aux_chars [of t is_word_re "[]" "lower q"] by (simp add: WORD_RE_findall_def runs_def)
    then have "\<forall>c \<in> set t. lower_char c = c"
      by (auto simp add: lower_def lower_char_idem)
    then show ?thesis by (simp add: lower_def map_idI)
  qed
  then show ?thesis by (simp add: map_idI)
qed

lemma findall_nonempty: "[] \<notin> set (WORD_RE_findall s)"
  by (simp add: WORD_RE_findall_def runs_def runs_aux_nonempty)

lemma score_tokens_sum:
  "[] \<notin> set tokens \<Longrightarrow>
   score_tokens t h p tokens sc =
     sc + (\<Sum>token \<leftarrow> tokens. int (str_count t token) + 3 * int (str_count h token) + 2 * int (str_count p token))"
  by (induction tokens arbitrary: sc) auto

lemma note_boost_spec:
  "note_boost ns p ql =
   (if (\<exists>m. ns p = Some m \<and> (\<exists>alias \<in> set (aliases m). contains ql alias)) then 20 else 0)"
  by (auto simp add: note_boost_def list_ex_iff split: option.splits)

lemma find_loop_sound:
  "s \<in> set (find_loop ns tokens ql secs) \<Longrightarrow>
   0 < score s \<and> score s = note_boost ns (path s) ql + score_section s tokens ql
   \<and> (\<exists>s0 \<in> set secs. s = s0\<lparr>score := score s\<rparr>)"
proof (induction secs)
  case Nil
  then show ?case by simp
next
  case (Cons a secs)
  let ?sc = "note_boost ns (path a) ql + score_section a tokens ql"
  let ?new = "\<lparr>path = path a, heading = heading a, line_start = line_start a,
               line_end = line_end a, text = text a, score = ?sc\<rparr>"
  from Cons.prems have "(0 < ?sc \<and> s = ?new) \<or> s \<in> set (find_loop ns tokens ql secs)"
    by (auto simp add: Let_def split: if_splits)
  then show ?case
  proof
    assume h: "0 < ?sc \<and> s = ?new"
    then have "s = a\<lparr>score := score s\<rparr>" by simp
    moreover from h have "score s = note_boost ns (path s) ql + score_section s tokens ql"
      by (simp add: score_section_def)
    ultimately show ?thesis using h by auto
  next
    assume "s \<in> set (find_loop ns tokens ql secs)"
    from Cons.IH [OF this] show ?thesis by auto
  qed
qed

lemma score_section_spec:
  "note_boost ns (path s) (lower q) + score_section s (map lower (WORD_RE_findall (lower q))) (lower q)
   = spec_score ns s q"
  by (simp add: score_section_def spec_score_def Let_def findall_lower score_tokens_sum
      findall_nonempty note_boost_spec)

lemma py_slice_take: "py_slice xs 0 k = take (slice_index (length xs) k) xs"
  by (simp add: py_slice_def slice_index_def)

lemma py_slice_set: "set (py_slice xs 0 k) \<subseteq> set xs"
  by (simp add: py_slice_take set_take_subset)

lemma sorted_desc:
  "sorted_wrt (\<lambda>a b. score b \<le> score a) (py_slice (sort_key (\<lambda>item. - score item) xs) 0 k)"
proof -
  have "sorted (map (\<lambda>item. - score item) (sort_key (\<lambda>item. - score item) xs))"
    by (rule sorted_sort_key)
  then have "sorted_wrt (\<lambda>a b. score b \<le> score a) (sort_key (\<lambda>item. - score item) xs)"
    by (simp add: sorted_wrt_map)
  then show ?thesis
    by (simp add: py_slice_take sorted_wrt_take)
qed

lemma find_loop_spec:
  "find_loop ns (map lower (WORD_RE_findall (lower q))) (lower q) secs
   = map (\<lambda>s. s\<lparr>score := spec_score ns s q\<rparr>) (filter (\<lambda>s. 0 < spec_score ns s q) secs)"
proof (induction secs)
  case Nil
  then show ?case by simp
next
  case (Cons a secs)
  have "note_boost ns (path a) (lower q)
          + score_section a (map lower (WORD_RE_findall (lower q))) (lower q) = spec_score ns a q"
    by (rule score_section_spec)
  with Cons.IH show ?case by (simp add: Let_def)
qed

lemma py_slice_take_nat: "py_slice xs 0 (int k) = take k xs"
  by (simp add: py_slice_take slice_index_def min_def)

text \<open>
  C3: for every query and every count \<open>top_k\<close>, \<^verbatim>\<open>find_sections\<close> returns at most \<open>top_k\<close>
  sections, each a stored section with its score replaced by a strictly positive score
  that equals the alias boost plus the sum over the query's word tokens of the weighted
  counts plus the whole-query bonus; the result is sorted by falling score, and a query
  without word tokens gives the empty list. The result is in fact the first \<open>top_k\<close> of
  all stored sections of positive score, stably sorted by falling score.
\<close>

theorem find_sections_spec:
  fixes top_k :: nat
  shows "find_sections idx query (int top_k)
     = (if WORD_RE_findall (lower query) = [] then []
        else take top_k (sort_key (\<lambda>item. - score item)
               (map (\<lambda>s. s\<lparr>score := spec_score (notes idx) s query\<rparr>)
                  (filter (\<lambda>s. 0 < spec_score (notes idx) s query) (sections idx)))))
   \<and> length (find_sections idx query (int top_k)) \<le> top_k
   \<and> (\<forall>s \<in> set (find_sections idx query (int top_k)).
        0 < score s \<and> score s = spec_score (notes idx) s query
        \<and> (\<exists>s0 \<in> set (sections idx). s = s0\<lparr>score := score s\<rparr>))
   \<and> sorted_wrt (\<lambda>a b. score b \<le> score a) (find_sections idx query (int top_k))
   \<and> (WORD_RE_findall (lower query) = [] \<longrightarrow> find_sections idx query (int top_k) = [])"
proof -
  let ?ql = "lower query"
  let ?tokens = "map lower (WORD_RE_findall ?ql)"
  let ?loop = "find_loop (notes idx) ?tokens ?ql (sections idx)"
  have fs: "find_sections idx query (int top_k) =
      (if ?tokens = [] then [] else py_slice (sort_key (\<lambda>item. - score item) ?loop) 0 (int top_k))"
    by (simp add: find_sections_def Let_def)
  have eq: "find_sections idx query (int top_k)
     = (if WORD_RE_findall (lower query) = [] then []
        else take top_k (sort_key (\<lambda>item. - score item)
               (map (\<lambda>s. s\<lparr>score := spec_score (notes idx) s query\<rparr>)
                  (filter (\<lambda>s. 0 < spec_score (notes idx) s query) (sections idx)))))"
    by (simp add: fs py_slice_take_nat find_loop_spec)
  have len: "length (find_sections idx query (int top_k)) \<le> top_k"
    by (simp add: fs py_slice_take_nat)
  have mem: "0 < score s \<and> score s = spec_score (notes idx) s query
        \<and> (\<exists>s0 \<in> set (sections idx). s = s0\<lparr>score := score s\<rparr>)"
    if "s \<in> set (find_sections idx query (int top_k))" for s
  proof -
    from that have "s \<in> set (py_slice (sort_key (\<lambda>item. - score item) ?loop) 0 (int top_k))"
      by (simp add: fs split: if_splits)
    with py_slice_set have "s \<in> set ?loop" by fastforce
    from find_loop_sound [OF this]
    have "0 < score s" "score s = note_boost (notes idx) (path s) ?ql + score_section s ?tokens ?ql"
      "\<exists>s0 \<in> set (sections idx). s = s0\<lparr>score := score s\<rparr>"
      by blast+
    then show ?thesis
      by (simp only: score_section_spec)
  qed
  have srt: "sorted_wrt (\<lambda>a b. score b \<le> score a) (find_sections idx query (int top_k))"
    by (simp add: fs sorted_desc)
  have emp: "WORD_RE_findall (lower query) = [] \<longrightarrow> find_sections idx query (int top_k) = []"
    by (simp add: fs)
  from eq len mem srt emp show ?thesis by blast
qed

theorem find_sections_spec_witness:
  "find_sections
       \<lparr>sections = [\<lparr>path = ''c.md'', heading = ''Plum'', line_start = 1, line_end = 1,
                       text = ''plum'', score = 0\<rparr>,
                     \<lparr>path = ''b.md'', heading = ''Pear'', line_start = 1, line_end = 2,
                       text = ''An apple'', score = 0\<rparr>,
                     \<lparr>path = ''a.md'', heading = ''Apple'', line_start = 1, line_end = 2,
                       text = ''apple pie apple'', score = 0\<rparr>],
        notes = Map.empty\<rparr> ''Apple'' (int 1)
      = [\<lparr>path = ''a.md'', heading = ''Apple'', line_start = 1, line_end = 2,
          text = ''apple pie apple'', score = 13\<rparr>]
   \<and> find_sections
       \<lparr>sections = [\<lparr>path = ''c.md'', heading = ''Plum'', line_start = 1, line_end = 1,
                       text = ''plum'', score = 0\<rparr>,
                     \<lparr>path = ''b.md'', heading = ''Pear'', line_start = 1, line_end = 2,
                       text = ''An apple'', score = 0\<rparr>,
                     \<lparr>path = ''a.md'', heading = ''Apple'', line_start = 1, line_end = 2,
                       text = ''apple pie apple'', score = 0\<rparr>],
        notes = Map.empty\<rparr> ''Apple'' (int 3)
      = [\<lparr>path = ''a.md'', heading = ''Apple'', line_start = 1, line_end = 2,
          text = ''apple pie apple'', score = 13\<rparr>,
         \<lparr>path = ''b.md'', heading = ''Pear'', line_start = 1, line_end = 2,
          text = ''An apple'', score = 9\<rparr>]
   \<and> spec_score Map.empty \<lparr>path = ''a.md'', heading = ''Apple'', line_start = 1, line_end = 2,
          text = ''apple pie apple'', score = 13\<rparr> ''Apple'' = 13
   \<and> spec_score Map.empty \<lparr>path = ''b.md'', heading = ''Pear'', line_start = 1, line_end = 2,
          text = ''An apple'', score = 9\<rparr> ''Apple'' = 9
   \<and> WORD_RE_findall (lower ''?!'') = []
   \<and> find_sections
       \<lparr>sections = [\<lparr>path = ''c.md'', heading = ''Plum'', line_start = 1, line_end = 1,
                       text = ''plum'', score = 0\<rparr>,
                     \<lparr>path = ''b.md'', heading = ''Pear'', line_start = 1, line_end = 2,
                       text = ''An apple'', score = 0\<rparr>,
                     \<lparr>path = ''a.md'', heading = ''Apple'', line_start = 1, line_end = 2,
                       text = ''apple pie apple'', score = 0\<rparr>],
        notes = Map.empty\<rparr> ''?!'' (int 3) = []"
proof -
  let ?idx = "\<lparr>sections = [\<lparr>path = ''c.md'', heading = ''Plum'', line_start = 1, line_end = 1,
                       text = ''plum'', score = 0\<rparr>,
                     \<lparr>path = ''b.md'', heading = ''Pear'', line_start = 1, line_end = 2,
                       text = ''An apple'', score = 0\<rparr>,
                     \<lparr>path = ''a.md'', heading = ''Apple'', line_start = 1, line_end = 2,
                       text = ''apple pie apple'', score = 0\<rparr>],
        notes = Map.empty\<rparr>"
  let ?a = "\<lparr>path = ''a.md'', heading = ''Apple'', line_start = 1, line_end = 2,
          text = ''apple pie apple'', score = 13\<rparr>"
  let ?b = "\<lparr>path = ''b.md'', heading = ''Pear'', line_start = 1, line_end = 2,
          text = ''An apple'', score = 9\<rparr>"
  have r1: "find_sections ?idx ''Apple'' (int 1) = [?a]" by code_simp
  have r3: "find_sections ?idx ''Apple'' (int 3) = [?a, ?b]" by code_simp
  have t: "WORD_RE_findall (lower ''?!'') = []" by code_simp
  from find_sections_spec [where idx = ?idx and query = "''Apple''" and top_k = 3]
  have "\<forall>s \<in> set (find_sections ?idx ''Apple'' (int 3)). score s = spec_score (notes ?idx) s ''Apple''"
    by blast
  then have "score ?a = spec_score (notes ?idx) ?a ''Apple''" "score ?b = spec_score (notes ?idx) ?b ''Apple''"
    by (simp_all only: r3 list.set insert_iff ball_simps simp_thms)
  then have sp: "spec_score Map.empty ?a ''Apple'' = 13" "spec_score Map.empty ?b ''Apple'' = 9"
    by simp_all
  from find_sections_spec [where idx = ?idx and query = "''?!''" and top_k = 3] t
  have "find_sections ?idx ''?!'' (int 3) = []" by blast
  with r1 r3 sp t show ?thesis by simp
qed

lemma insort_key_map:
  "map f (insort_key (\<lambda>x. g (f x)) x ys) = insort_key g (f x) (map f ys)"
  by (induction ys) auto

lemma sort_key_map:
  "map f (sort_key (\<lambda>x. g (f x)) xs) = sort_key g (map f xs)"
  by (induction xs) (auto simp add: insort_key_map)

lemma py_slice_map: "map f (py_slice xs i j) = py_slice (map f xs) i j"
  by (simp add: py_slice_def Let_def take_map drop_map)

lemma find_sections_mem:
  assumes "s \<in> set (find_sections idx q k)"
  shows "s \<in> set (find_loop (notes idx) (map lower (WORD_RE_findall (lower q))) (lower q) (sections idx))"
proof -
  let ?loop = "find_loop (notes idx) (map lower (WORD_RE_findall (lower q))) (lower q) (sections idx)"
  from assms have "s \<in> set (py_slice (sort_key (\<lambda>item. - score item) ?loop) 0 k)"
    by (simp add: find_sections_def Let_def split: if_splits)
  with py_slice_set have "s \<in> set (sort_key (\<lambda>item. - score item) ?loop)" by fastforce
  then show ?thesis by simp
qed

lemma find_loop_st_eq:
  "\<forall>r \<in> set refs. r < length st \<Longrightarrow>
   find_loop_st ns tokens ql refs st results =
     (st @ find_loop ns tokens ql (map ((!) st) refs),
      results @ [length st ..< length st + length (find_loop ns tokens ql (map ((!) st) refs))])"
proof (induction refs arbitrary: st results)
  case Nil
  then show ?case by simp
next
  case (Cons r refs)
  let ?sc = "note_boost ns (path (st ! r)) ql + score_section (st ! r) tokens ql"
  let ?new = "\<lparr>path = path (st ! r), heading = heading (st ! r), line_start = line_start (st ! r),
               line_end = line_end (st ! r), text = text (st ! r), score = ?sc\<rparr>"
  show ?case
  proof (cases "0 < ?sc")
    case True
    have lt: "\<forall>r \<in> set refs. r < length (st @ [?new])" using Cons.prems by auto
    have same: "map ((!) (st @ [?new])) refs = map ((!) st) refs"
      using Cons.prems by (auto simp add: nth_append)
    have "[length st ..< length st + Suc n] = length st # [Suc (length st) ..< Suc (length st) + n]" for n
      by (simp add: upt_rec)
    with True Cons.IH [OF lt] same show ?thesis
      by (simp add: Let_def)
  next
    case False
    with Cons.IH [of st results] Cons.prems show ?thesis
      by (simp add: Let_def)
  qed
qed

lemma map_nth_append_upt: "map ((!) (st @ new)) [length st ..< length st + length new] = new"
proof -
  have "map ((!) (st @ new)) [length st ..< length st + length new] = map ((!) new) [0 ..< length new]"
    by (rule nth_equalityI) (auto simp add: nth_append)
  then show ?thesis by (simp add: map_nth)
qed

lemma find_sections_st_values:
  assumes "\<forall>r \<in> set (section_refs w). r < length (objs w)"
  shows "map ((!) (objs (fst (find_sections_st w q k)))) (snd (find_sections_st w q k))
     = find_sections \<lparr>sections = map ((!) (objs w)) (section_refs w), notes = note_metas w\<rparr> q k"
proof -
  let ?ql = "lower q"
  let ?tokens = "map lower (WORD_RE_findall ?ql)"
  let ?new = "find_loop (note_metas w) ?tokens ?ql (map ((!) (objs w)) (section_refs w))"
  let ?st = "objs w @ ?new"
  let ?rs = "[length (objs w) ..< length (objs w) + length ?new]"
  have loop: "find_loop_st (note_metas w) ?tokens ?ql (section_refs w) (objs w) [] = (?st, ?rs)"
    using find_loop_st_eq [OF assms] by simp
  have "map ((!) ?st) (py_slice (sort_key (\<lambda>r. - score (?st ! r)) ?rs) 0 k)
      = py_slice (sort_key (\<lambda>item. - score item) ?new) 0 k"
    using sort_key_map [of "(!) ?st" "\<lambda>item. - score item" ?rs]
    by (simp only: py_slice_map map_nth_append_upt)
  then show ?thesis
    by (simp add: find_sections_st_def find_sections_def Let_def loop)
qed

lemma find_sections_st_frame_aux:
  assumes "\<forall>r \<in> set (section_refs w). r < length (objs w)"
  shows "section_refs (fst (find_sections_st w q k)) = section_refs w"
    and "note_metas (fst (find_sections_st w q k)) = note_metas w"
    and "take (length (objs w)) (objs (fst (find_sections_st w q k))) = objs w"
    and "\<forall>r \<in> set (snd (find_sections_st w q k)).
           length (objs w) \<le> r \<and> r < length (objs (fst (find_sections_st w q k)))"
proof -
  let ?ql = "lower q"
  let ?tokens = "map lower (WORD_RE_findall ?ql)"
  let ?new = "find_loop (note_metas w) ?tokens ?ql (map ((!) (objs w)) (section_refs w))"
  let ?st = "objs w @ ?new"
  let ?rs = "[length (objs w) ..< length (objs w) + length ?new]"
  have loop: "find_loop_st (note_metas w) ?tokens ?ql (section_refs w) (objs w) [] = (?st, ?rs)"
    using find_loop_st_eq [OF assms] by simp
  show "section_refs (fst (find_sections_st w q k)) = section_refs w"
    by (simp add: find_sections_st_def Let_def loop)
  show "note_metas (fst (find_sections_st w q k)) = note_metas w"
    by (simp add: find_sections_st_def Let_def loop)
  show "take (length (objs w)) (objs (fst (find_sections_st w q k))) = objs w"
    by (simp add: find_sections_st_def Let_def loop)
  have "set (py_slice (sort_key (\<lambda>r. - score (?st ! r)) ?rs) 0 k) \<subseteq> set ?rs"
    using py_slice_set [of "sort_key (\<lambda>r. - score (?st ! r)) ?rs" k] by simp
  then show "\<forall>r \<in> set (snd (find_sections_st w q k)).
           length (objs w) \<le> r \<and> r < length (objs (fst (find_sections_st w q k)))"
    by (auto simp add: find_sections_st_def Let_def loop)
qed

text \<open>
  C10: on a state whose stored references are valid, \<open>find_sections\<close> leaves the list of
  stored references and the notes as they were, changes no object that existed before the
  call (so every stored section keeps all its fields, the score among them), returns only
  references to objects allocated by the call, each with a positive score, and a second
  call with the same query and \<open>top_k\<close> returns sections equal, field by field, to those of
  the first.
\<close>

theorem find_sections_st_frame:
  assumes "\<forall>r \<in> set (section_refs w). r < length (objs w)"
  shows "section_refs (fst (find_sections_st w q k)) = section_refs w
    \<and> note_metas (fst (find_sections_st w q k)) = note_metas w
    \<and> take (length (objs w)) (objs (fst (find_sections_st w q k))) = objs w
    \<and> (\<forall>r \<in> set (section_refs w). objs (fst (find_sections_st w q k)) ! r = objs w ! r)
    \<and> (\<forall>r \<in> set (snd (find_sections_st w q k)).
          length (objs w) \<le> r \<and> r < length (objs (fst (find_sections_st w q k)))
          \<and> 0 < score (objs (fst (find_sections_st w q k)) ! r))
    \<and> map ((!) (objs (fst (find_sections_st (fst (find_sections_st w q k)) q k))))
          (snd (find_sections_st (fst (find_sections_st w q k)) q k))
       = map ((!) (objs (fst (find_sections_st w q k)))) (snd (find_sections_st w q k))"
proof -
  let ?w' = "fst (find_sections_st w q k)"
  let ?rs = "snd (find_sections_st w q k)"
  note fr = find_sections_st_frame_aux [OF assms, of q k]
  have same: "objs ?w' ! r = objs w ! r" if "r < length (objs w)" for r
  proof -
    from that have "take (length (objs w)) (objs ?w') ! r = objs ?w' ! r" by simp
    with fr(3) show ?thesis by simp
  qed
  have len: "length (objs w) \<le> length (objs ?w')"
    using fr(3) by (metis length_take min.cobounded2 min.commute)
  have valid': "\<forall>r \<in> set (section_refs ?w'). r < length (objs ?w')"
    using assms len fr(1) by auto
  have stored: "map ((!) (objs ?w')) (section_refs ?w') = map ((!) (objs w)) (section_refs w)"
    using assms same fr(1) by simp
  have second: "map ((!) (objs (fst (find_sections_st ?w' q k)))) (snd (find_sections_st ?w' q k))
       = map ((!) (objs ?w')) ?rs"
    by (simp only: find_sections_st_values [OF valid'] find_sections_st_values [OF assms] stored fr(2))
  have pos: "0 < score (objs ?w' ! r)" if "r \<in> set ?rs" for r
  proof -
    from that have "objs ?w' ! r \<in> set (map ((!) (objs ?w')) ?rs)" by simp
    then have "objs ?w' ! r \<in> set (find_sections
        \<lparr>sections = map ((!) (objs w)) (section_refs w), notes = note_metas w\<rparr> q k)"
      by (simp only: find_sections_st_values [OF assms])
    from find_sections_mem [OF this] find_loop_sound show ?thesis by blast
  qed
  from fr same assms second pos show ?thesis by auto
qed

theorem find_sections_st_frame_witness:
  "objs (fst (find_sections_st
      \<lparr>objs = [\<lparr>path = ''a.md'', heading = ''Apple'', line_start = 1, line_end = 2,
                 text = ''apple pie apple'', score = 0\<rparr>,
               \<lparr>path = ''b.md'', heading = ''Pear'', line_start = 1, line_end = 2,
                 text = ''nothing'', score = 7\<rparr>],
       section_refs = [0, 1], note_metas = Map.empty\<rparr> ''Apple'' 5))
    = [\<lparr>path = ''a.md'', heading = ''Apple'', line_start = 1, line_end = 2,
         text = ''apple pie apple'', score = 0\<rparr>,
       \<lparr>path = ''b.md'', heading = ''Pear'', line_start = 1, line_end = 2,
         text = ''nothing'', score = 7\<rparr>,
       \<lparr>path = ''a.md'', heading = ''Apple'', line_start = 1, line_end = 2,
         text = ''apple pie apple'', score = 13\<rparr>]
   \<and> snd (find_sections_st
      \<lparr>objs = [\<lparr>path = ''a.md'', heading = ''Apple'', line_start = 1, line_end = 2,
                 text = ''apple pie apple'', score = 0\<rparr>,
               \<lparr>path = ''b.md'', heading = ''Pear'', line_start = 1, line_end = 2,
                 text = ''nothing'', score = 7\<rparr>],
       section_refs = [0, 1], note_metas = Map.empty\<rparr> ''Apple'' 5) = [2]
   \<and> section_refs (fst (find_sections_st
      \<lparr>objs = [\<lparr>path = ''a.md'', heading = ''Apple'', line_start = 1, line_end = 2,
                 text = ''apple pie apple'', score = 0\<rparr>,
               \<lparr>path = ''b.md'', heading = ''Pear'', line_start = 1, line_end = 2,
                 text = ''nothing'', score = 7\<rparr>],
       section_refs = [0, 1], note_metas = Map.empty\<rparr> ''Apple'' 5)) = [0, 1]"
proof -
  let ?w = "\<lparr>objs = [\<lparr>path = ''a.md'', heading = ''Apple'', line_start = 1, line_end = 2,
                 text = ''apple pie apple'', score = 0\<rparr>,
               \<lparr>path = ''b.md'', heading = ''Pear'', line_start = 1, line_end = 2,
                 text = ''nothing'', score = 7\<rparr>],
       section_refs = [0, 1], note_metas = Map.empty\<rparr>"
  have v: "\<forall>r \<in> set (section_refs ?w). r < length (objs ?w)" by simp
  have o: "objs (fst (find_sections_st ?w ''Apple'' 5)) =
     objs ?w @ [\<lparr>path = ''a.md'', heading = ''Apple'', line_start = 1, line_end = 2,
                 text = ''apple pie apple'', score = 13\<rparr>]"
    by code_simp
  have r: "snd (find_sections_st ?w ''Apple'' 5) = [2]"
    by code_simp
  from find_sections_st_frame [OF v, of "''Apple''" 5]
  have "section_refs (fst (find_sections_st ?w ''Apple'' 5)) = section_refs ?w" by blast
  with o r show ?thesis by simp
qed

lemma strip_id:
  assumes "x \<noteq> []" "\<not> is_space (hd x)" "\<not> is_space (last x)"
  shows "strip x = x"
proof -
  from assms have l: "dropWhile is_space x = x" by (cases x) simp_all
  from assms have "rev x \<noteq> []" "\<not> is_space (hd (rev x))" by (simp_all add: hd_rev)
  then have "dropWhile is_space (rev x) = rev x" by (cases "rev x") simp_all
  with l show ?thesis
    by (simp add: strip_def strip_with_def lstrip_with_def rstrip_with_def)
qed

lemma runs_aux_all:
  "t \<in> set (runs_aux P cur s) \<Longrightarrow> \<forall>c \<in> set cur. P c \<Longrightarrow> \<forall>c \<in> set t. P c"
proof (induction s arbitrary: cur)
  case Nil
  then show ?case by (auto split: if_splits)
next
  case (Cons a s)
  show ?case
  proof (cases "P a")
    case True
    with Cons.prems have "t \<in> set (runs_aux P (cur @ [a]) s)" "\<forall>c \<in> set (cur @ [a]). P c" by auto
    then show ?thesis by (rule Cons.IH)
  next
    case False
    with Cons.prems have "t = cur \<or> t \<in> set (runs_aux P [] s)" by (auto split: if_splits)
    with Cons.prems(2) Cons.IH [of "[]"] show ?thesis by auto
  qed
qed

lemma split_ws_word:
  assumes "w \<in> set (split_ws s)"
  shows "w \<noteq> []" and "\<forall>c \<in> set w. \<not> is_space c"
proof -
  from assms runs_aux_nonempty [of "\<lambda>c. \<not> is_space c" "[]" s] show "w \<noteq> []"
    by (auto simp add: split_ws_def runs_def)
  from assms runs_aux_all [of w "\<lambda>c. \<not> is_space c" "[]" s] show "\<forall>c \<in> set w. \<not> is_space c"
    by (simp add: split_ws_def runs_def)
qed

lemma runs_aux_dropWhile:
  "runs_aux P [] (dropWhile (\<lambda>c. \<not> P c) s) = runs_aux P [] s"
  by (induction s) auto

lemma runs_aux_append_not:
  "\<forall>c \<in> set t. \<not> P c \<Longrightarrow> runs_aux P cur (s @ t) = runs_aux P cur s"
proof (induction s arbitrary: cur)
  case Nil
  then show ?case by (induction t arbitrary: cur) auto
next
  case (Cons a s)
  then show ?case by simp
qed

lemma rstrip_with_decomp: "\<exists>t. s = rstrip_with P s @ t \<and> (\<forall>c \<in> set t. P c)"
proof -
  have "rev s = takeWhile P (rev s) @ dropWhile P (rev s)" by simp
  then have "s = rev (dropWhile P (rev s)) @ rev (takeWhile P (rev s))"
    by (metis rev_append rev_rev_ident)
  moreover have "\<forall>c \<in> set (rev (takeWhile P (rev s))). P c"
    by (auto dest: set_takeWhileD)
  ultimately show ?thesis unfolding rstrip_with_def by blast
qed

lemma split_ws_strip: "split_ws (strip s) = split_ws s"
proof -
  let ?l = "dropWhile is_space s"
  obtain t where t: "?l = rstrip_with is_space ?l @ t" "\<forall>c \<in> set t. is_space c"
    using rstrip_with_decomp by blast
  have "runs_aux (\<lambda>c. \<not> is_space c) [] (rstrip_with is_space ?l @ t)
      = runs_aux (\<lambda>c. \<not> is_space c) [] (rstrip_with is_space ?l)"
    using t(2) by (intro runs_aux_append_not) simp
  with t(1) have "runs_aux (\<lambda>c. \<not> is_space c) [] (rstrip_with is_space ?l)
      = runs_aux (\<lambda>c. \<not> is_space c) [] ?l" by simp
  also have "\<dots> = runs_aux (\<lambda>c. \<not> is_space c) [] s"
    using runs_aux_dropWhile [of "\<lambda>c. \<not> is_space c" s] by simp
  finally show ?thesis
    by (simp add: split_ws_def runs_def strip_def strip_with_def lstrip_with_def)
qed

lemma split_ws_nonempty_strip: "split_ws s \<noteq> [] \<Longrightarrow> strip s \<noteq> []"
  using split_ws_strip [of s] by (auto simp add: split_ws_def runs_def)

lemma currency_len_props:
  assumes "currency_len s = Some k"
  shows "2 \<le> k \<and> k \<le> length s \<and> \<not> is_space (s ! (k - 1))"
proof -
  have ns: "\<not> is_space c" if "lower_char c \<in> {CHR ''k'', CHR ''r'', CHR ''d''}" for c
    using that by (auto simp add: lower_char_def is_space_def cp_def is_ascii_upper_def Let_def
        split: if_splits)
  show ?thesis
  proof (cases "lower (take 3 s) = ''dkk''")
    case True
    then have len: "length (take 3 s) = 3" by (metis length_map lower_def length_Cons list.size(3) numeral_3_eq_3)
    then have l3: "3 \<le> length s" by simp
    from True have "lower_char (s ! 2) = CHR ''k''"
      using l3 by (metis lower_def nth_map nth_take len lessI nth_Cons_0 nth_Cons_Suc numeral_2_eq_2 numeral_3_eq_3)
    with ns have "\<not> is_space (s ! 2)" by simp
    with True assms l3 show ?thesis by (simp add: currency_len_def)
  next
    case False
    show ?thesis
    proof (cases "lower (take 2 s) = ''kr''")
      case kr: True
      then have len: "length (take 2 s) = 2" by (metis length_map lower_def length_Cons list.size(3) numeral_2_eq_2)
      then have l2: "2 \<le> length s" by simp
      from kr have "lower_char (s ! 1) = CHR ''r''"
        using l2 by (metis lower_def nth_map nth_take len One_nat_def lessI nth_Cons_0 nth_Cons_Suc numeral_2_eq_2)
      with ns have r: "\<not> is_space (s ! 1)" by simp
      show ?thesis
      proof (cases "startswith (drop 2 s) ''.''")
        case True
        then have "drop 2 s \<noteq> []" "hd (drop 2 s) = CHR ''.''"
          by (cases "drop 2 s"; simp add: startswith_def)+
        then have "3 \<le> length s" "s ! 2 = CHR ''.''"
          by (auto simp add: hd_drop_conv_nth Suc_le_eq numeral_3_eq_3)
        moreover have "\<not> is_space (CHR ''.'')" by (simp add: is_space_def cp_def)
        ultimately show ?thesis using assms False kr True by (simp add: currency_len_def)
      next
        case f: False
        with assms False kr l2 r show ?thesis by (simp add: currency_len_def)
      qed
    next
      case f: False
      with False assms show ?thesis by (simp add: currency_len_def)
    qed
  qed
qed

lemma PRICE_match_at_props:
  assumes "PRICE_match_at s = Some n"
  shows "2 \<le> n \<and> n \<le> length s \<and> is_decimal (hd s) \<and> \<not> is_space (s ! (n - 1))"
proof -
  from assms obtain c cs where s: "s = c # cs" by (cases s) (simp_all add: PRICE_match_at_def)
  let ?num = "takeWhile is_price_tail cs"
  let ?an = "dropWhile is_price_tail cs"
  let ?ws = "takeWhile is_space ?an"
  let ?aw = "dropWhile is_space ?an"
  from assms s have d: "is_decimal c"
    by (simp add: PRICE_match_at_def split: if_splits)
  from assms s d obtain k where k: "currency_len ?aw = Some k" and n: "n = 1 + length ?num + length ?ws + k"
    by (auto simp add: PRICE_match_at_def Let_def split: option.splits)
  from currency_len_props [OF k] have kp: "2 \<le> k" "k \<le> length ?aw" "\<not> is_space (?aw ! (k - 1))"
    by simp_all
  have dec: "s = (c # ?num @ ?ws) @ ?aw"
    using s by simp
  have len: "length (c # ?num @ ?ws) = 1 + length ?num + length ?ws" by simp
  have "s ! (n - 1) = ?aw ! (k - 1)"
  proof -
    have "n - 1 = length (c # ?num @ ?ws) + (k - 1)" using n kp(1) by simp
    then show ?thesis using dec by (metis nth_append_length_plus)
  qed
  moreover have "n \<le> length s"
  proof -
    have "length s = 1 + length ?num + length ?ws + length ?aw"
      using dec len by (metis length_append)
    with n kp(2) show ?thesis by simp
  qed
  ultimately show ?thesis using kp n d s by simp
qed

lemma PRICE_search_from_props:
  "PRICE_search_from i s = Some (a, e) \<Longrightarrow>
   i \<le> a \<and> a + 2 \<le> e \<and> e \<le> i + length s
   \<and> is_decimal (s ! (a - i)) \<and> \<not> is_space (s ! (e - 1 - i))"
proof (induction s arbitrary: i)
  case Nil
  then show ?case by simp
next
  case (Cons c cs)
  show ?case
  proof (cases "PRICE_match_at (c # cs)")
    case None
    with Cons.prems have "PRICE_search_from (Suc i) cs = Some (a, e)" by simp
    from Cons.IH [OF this]
    have ih: "Suc i \<le> a" "a + 2 \<le> e" "e \<le> Suc i + length cs"
      "is_decimal (cs ! (a - Suc i))" "\<not> is_space (cs ! (e - 1 - Suc i))"
      by simp_all
    have "a - i = Suc (a - Suc i)" "e - 1 - i = Suc (e - 1 - Suc i)"
      using ih(1,2) by simp_all
    with ih show ?thesis by simp
  next
    case (Some n)
    with Cons.prems have ae: "a = i" "e = i + n" by simp_all
    from PRICE_match_at_props [OF Some]
    have p: "2 \<le> n" "n \<le> length (c # cs)" "is_decimal (hd (c # cs))"
      "\<not> is_space ((c # cs) ! (n - 1))" by blast+
    have "a - i = 0" "e - 1 - i = n - 1" using ae by simp_all
    then have "is_decimal ((c # cs) ! (a - i))" "\<not> is_space ((c # cs) ! (e - 1 - i))"
      using p(3,4) by simp_all
    moreover have "i \<le> a" "a + 2 \<le> e" "e \<le> i + length (c # cs)" using ae p(1,2) by simp_all
    ultimately show ?thesis by blast
  qed
qed

lemma PRICE_search_match:
  assumes "PRICE_search line = Some (s, e)"
  shows "strip (take (e - s) (drop s line)) = take (e - s) (drop s line)"
    and "take (e - s) (drop s line) \<noteq> []"
    and "is_decimal (hd (take (e - s) (drop s line)))"
proof -
  let ?m = "take (e - s) (drop s line)"
  from PRICE_search_from_props [of 0 line s e] assms
  have p: "s + 2 \<le> e" "e \<le> length line" "is_decimal (line ! s)" "\<not> is_space (line ! (e - 1))"
    by (simp_all add: PRICE_search_def)
  then have len: "length ?m = e - s" by simp
  with p show ne: "?m \<noteq> []" by auto
  have h: "hd ?m = line ! s" using p ne by (simp add: hd_conv_nth)
  with p show "is_decimal (hd ?m)" by simp
  have l: "last ?m = line ! (e - 1)"
  proof -
    have "last ?m = ?m ! (e - s - 1)" using ne len by (simp add: last_conv_nth)
    also have "\<dots> = line ! (s + (e - s - 1))" using p by simp
    also have "s + (e - s - 1) = e - 1" using p by simp
    finally show ?thesis .
  qed
  have "\<not> is_space (hd ?m)" using h p(3) by (auto simp add: is_decimal_def is_space_def Let_def)
  with ne l p show "strip ?m = ?m" by (intro strip_id) simp_all
qed

lemma join_last:
  "ws \<noteq> [] \<Longrightarrow> \<forall>w \<in> set ws. w \<noteq> [] \<Longrightarrow> join sep ws \<noteq> [] \<and> last (join sep ws) = last (last ws)"
  by (induction sep ws rule: join.induct) auto

lemma extended_price_strip:
  assumes m: "m \<noteq> []" "is_decimal (hd m)"
    and ws: "split_ws x = w # ws"
  shows "strip (m @ '' '' @ join '' '' (take 2 (w # ws))) = m @ '' '' @ join '' '' (take 2 (w # ws))"
proof -
  let ?t = "take 2 (w # ws)"
  have sub: "set ?t \<subseteq> set (split_ws x)" using ws by (metis set_take_subset)
  have ne: "?t \<noteq> []" by simp
  have words: "\<forall>v \<in> set ?t. v \<noteq> []" using sub split_ws_word(1) by blast
  from join_last [OF ne words] have j: "join '' '' ?t \<noteq> []" "last (join '' '' ?t) = last (last ?t)"
    by simp_all
  have "last ?t \<in> set ?t" using ne by (rule last_in_set)
  then have lw: "last ?t \<in> set (split_ws x)" "last ?t \<noteq> []" using sub words by auto
  then have "last (last ?t) \<in> set (last ?t)" by simp
  with split_ws_word(2) [OF lw(1)] have "\<not> is_space (last (last ?t))" by blast
  with j have "\<not> is_space (last (m @ '' '' @ join '' '' ?t))" by simp
  moreover have "\<not> is_space (hd (m @ '' '' @ join '' '' ?t))"
    using m by (auto simp add: is_decimal_def is_space_def Let_def)
  ultimately show ?thesis using m by (intro strip_id) simp_all
qed

text \<open>
  C4, as stated, fails for the token \<open>inkl\<close>: \<^verbatim>\<open>_extract_price_from_line\<close> extends the price
  only when the first word after the match starts with \<open>/\<close>, \<open>pr\<close> or \<open>per\<close>. For the line
  \<open>Basis 499 kr. inkl moms\<close> the price is \<open>499 kr.\<close>, not \<open>499 kr. inkl moms\<close>.
\<close>

theorem extract_price_inkl_counterexample:
  "PRICE_search ''Basis 499 kr. inkl moms'' = Some (6, 13)
   \<and> take (13 - 6) (drop 6 ''Basis 499 kr. inkl moms'') = ''499 kr.''
   \<and> split_ws (drop 13 ''Basis 499 kr. inkl moms'') = [''inkl'', ''moms'']
   \<and> extract_price_from_line ''Basis 499 kr. inkl moms'' = Some ''499 kr.''
   \<and> extract_price_from_line ''Basis 499 kr. inkl moms'' \<noteq> Some (''499 kr.'' @ '' '' @ join '' '' (take 2 [''inkl'', ''moms'']))"
  by code_simp

text \<open>
  C4, amended: when the price pattern matches a line and the first whitespace-separated
  word after the match starts with \<open>/\<close> or, ignoring case, with \<open>pr\<close> or \<open>per\<close> (so for
  the tokens \<open>/\<close>, \<open>pr\<close>, \<open>pr.\<close> and \<open>per\<close>), the extracted price is the matched text, a
  space, and the first two words after the match (the one word, if there is only one)
  joined by a space; for any other first word, \<open>inkl\<close> among them, the extracted price
  is the matched text alone.
\<close>

theorem extract_price_continuation:
  assumes "PRICE_search line = Some (s, e)"
    and "split_ws (drop e line) = w # ws"
  shows "(startswith w ''/'' \<or> startswith (lower w) ''pr'' \<or> startswith (lower w) ''per'' \<longrightarrow>
          extract_price_from_line line
            = Some (take (e - s) (drop s line) @ '' '' @ join '' '' (take 2 (w # ws))))
    \<and> (w \<in> {''/'', ''pr'', ''pr.'', ''per''} \<longrightarrow>
          extract_price_from_line line
            = Some (take (e - s) (drop s line) @ '' '' @ join '' '' (take 2 (w # ws))))
    \<and> (\<not> (startswith w ''/'' \<or> startswith (lower w) ''pr'' \<or> startswith (lower w) ''per'') \<longrightarrow>
          extract_price_from_line line = Some (take (e - s) (drop s line)))
    \<and> (w = ''inkl'' \<longrightarrow> extract_price_from_line line = Some (take (e - s) (drop s line)))"
proof -
  let ?m = "take (e - s) (drop s line)"
  let ?cond = "startswith w ''/'' \<or> startswith (lower w) ''pr'' \<or> startswith (lower w) ''per''"
  note pm = PRICE_search_match [OF assms(1)]
  have sw: "split_ws (strip (drop e line)) = w # ws"
    using assms(2) by (simp add: split_ws_strip)
  have sne: "strip (drop e line) \<noteq> []"
    using assms(2) by (intro split_ws_nonempty_strip) simp
  have ext: "strip (?m @ '' '' @ join '' '' (take 2 (w # ws))) = ?m @ '' '' @ join '' '' (take 2 (w # ws))"
    using pm(2,3) assms(2) by (rule extended_price_strip)
  have yes: "extract_price_from_line line = Some (?m @ '' '' @ join '' '' (take 2 (w # ws)))" if ?cond
    using that assms(1) sw sne pm(1) ext
    by (simp add: extract_price_from_line_def Let_def del: join.simps)
  have no: "extract_price_from_line line = Some ?m" if "\<not> ?cond"
    using that assms(1) sw sne pm(1)
    by (simp add: extract_price_from_line_def Let_def)
  have listed: ?cond if "w \<in> {''/'', ''pr'', ''pr.'', ''per''}"
  proof -
    have "startswith ''/'' ''/''" "startswith (lower ''pr'') ''pr''"
      "startswith (lower ''pr.'') ''pr''" "startswith (lower ''per'') ''per''"
      by code_simp+
    with that show ?thesis by auto
  qed
  have inkl: "\<not> (startswith ''inkl'' ''/'' \<or> startswith (lower ''inkl'') ''pr'' \<or> startswith (lower ''inkl'') ''per'')"
    by code_simp
  from yes no listed inkl show ?thesis by blast
qed

theorem extract_price_continuation_witness:
  "PRICE_search ''Basis 499 kr pr. maaned for alle'' = Some (6, 12)
   \<and> split_ws (drop 12 ''Basis 499 kr pr. maaned for alle'') = [''pr.'', ''maaned'', ''for'', ''alle'']
   \<and> extract_price_from_line ''Basis 499 kr pr. maaned for alle'' = Some ''499 kr pr. maaned''
   \<and> PRICE_search ''Basis 499 kr. inkl moms'' = Some (6, 13)
   \<and> split_ws (drop 13 ''Basis 499 kr. inkl moms'') = [''inkl'', ''moms'']
   \<and> extract_price_from_line ''Basis 499 kr. inkl moms'' = Some ''499 kr.''"
proof -
  have a: "PRICE_search ''Basis 499 kr pr. maaned for alle'' = Some (6, 12)" by code_simp
  have b: "split_ws (drop 12 ''Basis 499 kr pr. maaned for alle'') = ''pr.'' # [''maaned'', ''for'', ''alle'']"
    by code_simp
  have c: "PRICE_search ''Basis 499 kr. inkl moms'' = Some (6, 13)" by code_simp
  have d: "split_ws (drop 13 ''Basis 499 kr. inkl moms'') = ''inkl'' # [''moms'']" by code_simp
  from extract_price_continuation [OF a b]
  have "extract_price_from_line ''Basis 499 kr pr. maaned for alle''
      = Some (take (12 - 6) (drop 6 ''Basis 499 kr pr. maaned for alle'') @ '' '' @ join '' '' (take 2 (''pr.'' # [''maaned'', ''for'', ''alle''])))"
    by simp
  then have x: "extract_price_from_line ''Basis 499 kr pr. maaned for alle'' = Some ''499 kr pr. maaned''"
    by (simp add: numeral_eq_Suc)
  from extract_price_continuation [OF c d]
  have "extract_price_from_line ''Basis 499 kr. inkl moms'' = Some (take (13 - 6) (drop 6 ''Basis 499 kr. inkl moms''))"
    by simp
  then have y: "extract_price_from_line ''Basis 499 kr. inkl moms'' = Some ''499 kr.''"
    by (simp add: numeral_eq_Suc)
  from a b c d x y show ?thesis by simp
qed

lemma items_of_line_nonempty:
  "item \<in> set (items_of_line section lines idx line) \<Longrightarrow> item_name item \<noteq> [] \<and> item_price item \<noteq> []"
  by (auto simp add: items_of_line_def mk_item_def Let_def
      split: option.splits list.splits if_splits)

lemma items_of_lines_nonempty:
  "item \<in> set (items_of_lines section lines idx ls) \<Longrightarrow> item_name item \<noteq> [] \<and> item_price item \<noteq> []"
  by (induction ls arbitrary: idx) (auto dest: items_of_line_nonempty)

lemma items_of_sections_nonempty:
  "item \<in> set (items_of_sections secs) \<Longrightarrow> item_name item \<noteq> [] \<and> item_price item \<noteq> []"
  by (induction secs) (auto dest: items_of_lines_nonempty)

lemma dedupe_subset: "set (dedupe seen items) \<subseteq> set items"
  by (induction items arbitrary: seen) auto

lemma dedupe_not_seen: "x \<in> set (dedupe seen items) \<Longrightarrow> item_key x \<notin> set seen"
proof (induction items arbitrary: seen)
  case Nil
  then show ?case by simp
next
  case (Cons a items)
  show ?case
  proof (cases "item_key a \<in> set seen")
    case True
    with Cons.prems have "x \<in> set (dedupe seen items)" by simp
    then show ?thesis by (rule Cons.IH)
  next
    case False
    with Cons.prems have "x = a \<or> x \<in> set (dedupe (item_key a # seen) items)" by simp
    then show ?thesis
    proof
      assume "x = a"
      with False show ?thesis by simp
    next
      assume "x \<in> set (dedupe (item_key a # seen) items)"
      from Cons.IH [OF this] show ?thesis by simp
    qed
  qed
qed

lemma dedupe_distinct: "distinct (map item_key (dedupe seen items))"
  by (induction items arbitrary: seen) (auto dest: dedupe_not_seen)

lemma dedupe_keeps_key:
  "x \<in> set items \<Longrightarrow> item_key x \<in> set seen \<or> (\<exists>y \<in> set (dedupe seen items). item_key y = item_key x)"
proof (induction items arbitrary: seen)
  case Nil
  then show ?case by simp
next
  case (Cons a items)
  show ?case
  proof (cases "x = a")
    case True
    then show ?thesis by auto
  next
    case False
    with Cons.prems have x: "x \<in> set items" by simp
    show ?thesis
    proof (cases "item_key a \<in> set seen")
      case True
      with Cons.IH [OF x, of seen] show ?thesis by auto
    next
      case False
      with Cons.IH [OF x, of "item_key a # seen"] show ?thesis by auto
    qed
  qed
qed

lemma distinct_map_insort_key:
  "distinct (map g (insort_key f x xs)) \<longleftrightarrow> g x \<notin> set (map g xs) \<and> distinct (map g xs)"
  by (induction xs) (auto simp add: set_insort_key)

lemma distinct_map_sort_key:
  "distinct (map g (sort_key f xs)) \<longleftrightarrow> distinct (map g xs)"
  by (induction xs) (auto simp add: distinct_map_insort_key)

lemma filter_key_single:
  "distinct (map f xs) \<Longrightarrow> y \<in> set xs \<Longrightarrow> filter (\<lambda>x. f x = f y) xs = [y]"
proof (induction xs)
  case Nil
  then show ?case by simp
next
  case (Cons a xs)
  show ?case
  proof (cases "a = y")
    case True
    with Cons.prems have "f y \<notin> f ` set xs" by simp
    then have "\<forall>x \<in> set xs. f x \<noteq> f y" by (metis imageI)
    then have "filter (\<lambda>x. f x = f y) xs = []" by (simp add: filter_empty_conv)
    with True show ?thesis by simp
  next
    case False
    with Cons.prems have y: "y \<in> set xs" "distinct (map f xs)" by auto
    with Cons.prems have "f a \<noteq> f y" by auto
    with Cons.IH y show ?thesis by simp
  qed
qed

text \<open>
  C5: for every list of sections, every item \<^verbatim>\<open>extract_price_items\<close> returns has a
  non-empty name and a non-empty price, no two returned items have the same key
  (path, heading, name, price, line\_start), and the items are sorted ascending by
  (path, line\_start).
\<close>

theorem extract_price_items_invariants:
  "(\<forall>item \<in> set (extract_price_items secs). item_name item \<noteq> [] \<and> item_price item \<noteq> [])
   \<and> distinct (map item_key (extract_price_items secs))
   \<and> sorted (map (\<lambda>item. (item_path item, item_line_start item)) (extract_price_items secs))"
proof -
  have "item_name item \<noteq> [] \<and> item_price item \<noteq> []" if "item \<in> set (extract_price_items secs)" for item
  proof -
    from that have "item \<in> set (dedupe [] (items_of_sections secs))"
      by (simp add: extract_price_items_def)
    with dedupe_subset have "item \<in> set (items_of_sections secs)" by blast
    then show ?thesis by (rule items_of_sections_nonempty)
  qed
  moreover have "distinct (map item_key (extract_price_items secs))"
    by (simp add: extract_price_items_def distinct_map_sort_key dedupe_distinct)
  moreover have "sorted (map (\<lambda>item. (item_path item, item_line_start item)) (extract_price_items secs))"
    unfolding extract_price_items_def by (rule sorted_sort_key)
  ultimately show ?thesis by blast
qed

theorem extract_price_items_invariants_witness:
  "extract_price_items
     [\<lparr>path = ''p.md'', heading = ''Pricing'', line_start = 10, line_end = 20,
       text = ''| Basis | 499 kr. |'' @ nl @ ''| Basis | 499 kr. |'' @ nl @ ''Guld: 999 kr. pr. md'',
       score = 0\<rparr>,
      \<lparr>path = ''a.md'', heading = ''Fees'', line_start = 3, line_end = 4,
       text = ''Gebyr 50 DKK'', score = 0\<rparr>]
    = [\<lparr>item_name = ''Gebyr'', item_price = ''50 DKK'', item_path = ''a.md'',
        item_heading = ''Fees'', item_line_start = 3, item_line_end = 3\<rparr>,
       \<lparr>item_name = ''Basis'', item_price = ''499 kr.'', item_path = ''p.md'',
        item_heading = ''Pricing'', item_line_start = 10, item_line_end = 10\<rparr>,
       \<lparr>item_name = ''Guld'', item_price = ''999 kr. pr. md'', item_path = ''p.md'',
        item_heading = ''Pricing'', item_line_start = 11, item_line_end = 12\<rparr>]
   \<and> distinct (map item_key (extract_price_items
     [\<lparr>path = ''p.md'', heading = ''Pricing'', line_start = 10, line_end = 20,
       text = ''| Basis | 499 kr. |'' @ nl @ ''| Basis | 499 kr. |'' @ nl @ ''Guld: 999 kr. pr. md'',
       score = 0\<rparr>,
      \<lparr>path = ''a.md'', heading = ''Fees'', line_start = 3, line_end = 4,
       text = ''Gebyr 50 DKK'', score = 0\<rparr>]))
   \<and> sorted (map (\<lambda>item. (item_path item, item_line_start item)) (extract_price_items
     [\<lparr>path = ''p.md'', heading = ''Pricing'', line_start = 10, line_end = 20,
       text = ''| Basis | 499 kr. |'' @ nl @ ''| Basis | 499 kr. |'' @ nl @ ''Guld: 999 kr. pr. md'',
       score = 0\<rparr>,
      \<lparr>path = ''a.md'', heading = ''Fees'', line_start = 3, line_end = 4,
       text = ''Gebyr 50 DKK'', score = 0\<rparr>]))"
proof -
  let ?secs = "[\<lparr>path = ''p.md'', heading = ''Pricing'', line_start = 10, line_end = 20,
       text = ''| Basis | 499 kr. |'' @ nl @ ''| Basis | 499 kr. |'' @ nl @ ''Guld: 999 kr. pr. md'',
       score = 0\<rparr>,
      \<lparr>path = ''a.md'', heading = ''Fees'', line_start = 3, line_end = 4,
       text = ''Gebyr 50 DKK'', score = 0\<rparr>]"
  have v: "extract_price_items ?secs
    = [\<lparr>item_name = ''Gebyr'', item_price = ''50 DKK'', item_path = ''a.md'',
        item_heading = ''Fees'', item_line_start = 3, item_line_end = 3\<rparr>,
       \<lparr>item_name = ''Basis'', item_price = ''499 kr.'', item_path = ''p.md'',
        item_heading = ''Pricing'', item_line_start = 10, item_line_end = 10\<rparr>,
       \<lparr>item_name = ''Guld'', item_price = ''999 kr. pr. md'', item_path = ''p.md'',
        item_heading = ''Pricing'', item_line_start = 11, item_line_end = 12\<rparr>]"
    by code_simp
  from extract_price_items_invariants [of ?secs]
  have "distinct (map item_key (extract_price_items ?secs))"
    "sorted (map (\<lambda>item. (item_path item, item_line_start item)) (extract_price_items ?secs))"
    by blast+
  with v show ?thesis by blast
qed

lemma row_cells: "parse_table_row ''| Basis | 499 kr. |'' = Some [''Basis'', ''499 kr.'']"
  by code_simp

lemma row_price_cell:
  "find (\<lambda>cell. PRICE_search cell \<noteq> None) [''Basis'', ''499 kr.''] = Some ''499 kr.''"
  by code_simp

lemma row_price: "extract_price_from_line ''499 kr.'' = Some ''499 kr.''"
  by code_simp

lemma row_name: "first_name_cell ''499 kr.'' [''Basis'', ''499 kr.''] = ''Basis''"
  by code_simp

lemma items_of_line_row:
  "items_of_line sec lines idx ''| Basis | 499 kr. |'' = [mk_item sec idx ''Basis'' ''499 kr.'']"
  unfolding items_of_line_def
  by (simp only: row_cells row_price_cell row_price row_name Let_def option.case list.case) simp

lemma items_of_lines_row:
  "j < length ls \<Longrightarrow> ls ! j = ''| Basis | 499 kr. |'' \<Longrightarrow>
   mk_item sec (idx + j) ''Basis'' ''499 kr.'' \<in> set (items_of_lines sec lines idx ls)"
proof (induction ls arbitrary: idx j)
  case Nil
  then show ?case by simp
next
  case (Cons l ls)
  show ?case
  proof (cases j)
    case 0
    with Cons.prems show ?thesis by (simp add: items_of_line_row)
  next
    case (Suc k)
    with Cons.prems have "k < length ls" "ls ! k = ''| Basis | 499 kr. |''" by simp_all
    from Cons.IH [OF this, of "Suc idx"] Suc show ?thesis by simp
  qed
qed

lemma items_of_sections_mem:
  "sec \<in> set secs \<Longrightarrow>
   set (items_of_lines sec (splitlines (text sec)) 0 (splitlines (text sec)))
     \<subseteq> set (items_of_sections secs)"
  by (induction secs) auto

text \<open>
  C9: when a section headed \<open>Pricing\<close> has the table row \<open>| Basis | 499 kr. |\<close> as one of
  the lines of its text, \<^verbatim>\<open>extract_price_items\<close> returns exactly one item with the key of
  that row (the section's path and heading, the name \<open>Basis\<close>, the price \<open>499 kr.\<close> and
  the row's line\_start), and that item has name \<open>Basis\<close> and price \<open>499 kr.\<close>.
\<close>

theorem extract_price_items_table_row:
  assumes "sec \<in> set secs" and "heading sec = ''Pricing''"
    and "idx < length (splitlines (text sec))"
    and "splitlines (text sec) ! idx = ''| Basis | 499 kr. |''"
  shows "\<exists>item. filter (\<lambda>i. item_key i = (path sec, ''Pricing'', ''Basis'', ''499 kr.'',
                                           line_start sec + max (int idx - 1) 0))
                   (extract_price_items secs) = [item]
               \<and> item_name item = ''Basis'' \<and> item_price item = ''499 kr.''
               \<and> item_path item = path sec \<and> item_heading item = ''Pricing''"
proof -
  let ?I = "mk_item sec idx ''Basis'' ''499 kr.''"
  let ?k = "(path sec, ''Pricing'', ''Basis'', ''499 kr.'', line_start sec + max (int idx - 1) 0)"
  have key: "item_key ?I = ?k" using assms(2) by (simp add: item_key_def mk_item_def)
  have "?I \<in> set (items_of_lines sec (splitlines (text sec)) 0 (splitlines (text sec)))"
    using items_of_lines_row [OF assms(3,4), of sec 0] by simp
  with items_of_sections_mem [OF assms(1)] have "?I \<in> set (items_of_sections secs)" by blast
  from dedupe_keeps_key [OF this, of "[]"]
  obtain y where y: "y \<in> set (dedupe [] (items_of_sections secs))" "item_key y = item_key ?I"
    by auto
  then have ymem: "y \<in> set (extract_price_items secs)" by (simp add: extract_price_items_def)
  have d: "distinct (map item_key (extract_price_items secs))"
    by (simp add: extract_price_items_def distinct_map_sort_key dedupe_distinct)
  from filter_key_single [OF d ymem] y(2) key
  have "filter (\<lambda>i. item_key i = ?k) (extract_price_items secs) = [y]" by simp
  moreover from y(2) key have "item_name y = ''Basis''" "item_price y = ''499 kr.''"
    "item_path y = path sec" "item_heading y = ''Pricing''"
    by (simp_all add: item_key_def)
  ultimately show ?thesis by blast
qed

theorem extract_price_items_table_row_witness:
  "heading \<lparr>path = ''p.md'', heading = ''Pricing'', line_start = 10, line_end = 20,
       text = ''Plans'' @ nl @ ''| Basis | 499 kr. |'', score = 0\<rparr> = ''Pricing''
   \<and> splitlines (text \<lparr>path = ''p.md'', heading = ''Pricing'', line_start = 10, line_end = 20,
       text = ''Plans'' @ nl @ ''| Basis | 499 kr. |'', score = 0\<rparr>) ! 1 = ''| Basis | 499 kr. |''
   \<and> extract_price_items [\<lparr>path = ''p.md'', heading = ''Pricing'', line_start = 10, line_end = 20,
       text = ''Plans'' @ nl @ ''| Basis | 499 kr. |'', score = 0\<rparr>]
      = [\<lparr>item_name = ''Basis'', item_price = ''499 kr.'', item_path = ''p.md'',
          item_heading = ''Pricing'', item_line_start = 10, item_line_end = 11\<rparr>]
   \<and> filter (\<lambda>i. item_key i = (''p.md'', ''Pricing'', ''Basis'', ''499 kr.'', 10))
        (extract_price_items [\<lparr>path = ''p.md'', heading = ''Pricing'', line_start = 10, line_end = 20,
          text = ''Plans'' @ nl @ ''| Basis | 499 kr. |'', score = 0\<rparr>])
      = [\<lparr>item_name = ''Basis'', item_price = ''499 kr.'', item_path = ''p.md'',
          item_heading = ''Pricing'', item_line_start = 10, item_line_end = 11\<rparr>]"
proof -
  let ?sec = "\<lparr>path = ''p.md'', heading = ''Pricing'', line_start = 10, line_end = 20,
       text = ''Plans'' @ nl @ ''| Basis | 499 kr. |'', score = 0\<rparr>"
  let ?item = "\<lparr>item_name = ''Basis'', item_price = ''499 kr.'', item_path = ''p.md'',
          item_heading = ''Pricing'', item_line_start = 10, item_line_end = 11\<rparr>"
  have ls: "splitlines (text ?sec) = [''Plans'', ''| Basis | 499 kr. |'']" by code_simp
  have v: "extract_price_items [?sec] = [?item]" by code_simp
  have h: "?sec \<in> set [?sec]" "heading ?sec = ''Pricing''" "1 < length (splitlines (text ?sec))"
    "splitlines (text ?sec) ! 1 = ''| Basis | 499 kr. |''"
    using ls by simp_all
  from extract_price_items_table_row [OF h]
  obtain item where "filter (\<lambda>i. item_key i = (path ?sec, ''Pricing'', ''Basis'', ''499 kr.'',
       line_start ?sec + max (int 1 - 1) 0)) (extract_price_items [?sec]) = [item]"
    by blast
  then have "filter (\<lambda>i. item_key i = (''p.md'', ''Pricing'', ''Basis'', ''499 kr.'', 10))
       (extract_price_items [?sec]) = [?item]"
    using v by (simp split: if_splits)
  with h v show ?thesis by simp
qed

section \<open>Sources of a reply\<close>

lemma py_slice_take3: "py_slice xs 0 3 = take 3 xs"
  by (simp add: py_slice_def slice_index_def min_def)

lemma rstrip_idem: "rstrip (rstrip s) = rstrip s"
  by (simp add: rstrip_def rstrip_with_def dropWhile_idem)

lemma before_first_absent: "\<not> contains s sep \<Longrightarrow> before_first sep s = s"
  by (induction s) auto

text \<open>
  C6, as stated, fails in two ways. A response that names \<open>Sources:\<close> without a usable
  block is cut at the first \<open>Sources:\<close> and right-stripped before the block is added, so
  the result does not start with the response; and for an empty snippet list no block is
  appended at all: the response comes back unchanged, with an empty list.
\<close>

theorem ensure_sources_counterexample:
  "parse_sources (''Answer'' @ nl @ ''Sources:'' @ nl @ ''none'') = []
   \<and> ensure_sources (''Answer'' @ nl @ ''Sources:'' @ nl @ ''none'')
        [\<lparr>s_path = ''a.md'', s_heading = ''H'', s_line_start = 1, s_line_end = 12,
          excerpt = ''x'', s_score = 0\<rparr>]
      = (''Answer'' @ nl @ nl @ ''Sources:'' @ nl @ ''- a.md#H (lines 1-12)'', [''a.md#H (lines 1-12)''])
   \<and> \<not> startswith (fst (ensure_sources (''Answer'' @ nl @ ''Sources:'' @ nl @ ''none'')
        [\<lparr>s_path = ''a.md'', s_heading = ''H'', s_line_start = 1, s_line_end = 12,
          excerpt = ''x'', s_score = 0\<rparr>])) (''Answer'' @ nl @ ''Sources:'' @ nl @ ''none'')
   \<and> parse_sources ''Answer'' = []
   \<and> ensure_sources ''Answer'' [] = (''Answer'', [])"
  by code_simp

text \<open>
  C6, amended: when no sources can be parsed from the response, \<^verbatim>\<open>ensure_sources\<close>
  returns as its list the citations \<open>path#heading (lines a-b)\<close> of the first min(3, length)
  snippets in their order. With no snippets the response is returned unchanged. With at
  least one snippet the returned text is the response cut before its first \<open>Sources:\<close>
  (if it has one) and right-stripped, followed by a blank line, the line \<open>Sources:\<close> and
  one line \<open>- citation\<close> per listed snippet; it is the response itself followed by that
  block when the response has no \<open>Sources:\<close> and no trailing whitespace.
\<close>

theorem ensure_sources_fallback:
  assumes "parse_sources response = []"
  shows "snd (ensure_sources response snippets) = map citation (take 3 snippets)
    \<and> (snippets = [] \<longrightarrow> fst (ensure_sources response snippets) = response)
    \<and> (snippets \<noteq> [] \<longrightarrow>
          fst (ensure_sources response snippets)
            = rstrip (before_first ''Sources:'' response) @ nl @ nl @ ''Sources:'' @ nl
                @ join nl (map (\<lambda>snippet. ''- '' @ citation snippet) (take 3 snippets)))
    \<and> (snippets \<noteq> [] \<and> \<not> contains response ''Sources:'' \<and> rstrip response = response \<longrightarrow>
          fst (ensure_sources response snippets)
            = response @ nl @ nl @ ''Sources:'' @ nl
                @ join nl (map (\<lambda>snippet. ''- '' @ citation snippet) (take 3 snippets)))"
proof -
  let ?block = "nl @ nl @ ''Sources:'' @ nl
      @ join nl (map (\<lambda>snippet. ''- '' @ citation snippet) (take 3 snippets))"
  have base: "rstrip (if contains response ''Sources:''
        then rstrip (before_first ''Sources:'' response) else response)
      = rstrip (before_first ''Sources:'' response)"
    by (simp add: rstrip_idem before_first_absent)
  have s: "snd (ensure_sources response snippets) = map citation (take 3 snippets)"
    using assms by (simp add: ensure_sources_def Let_def py_slice_take3)
  have e: "fst (ensure_sources response snippets) = response" if "snippets = []"
    using assms that by (simp add: ensure_sources_def Let_def py_slice_take3)
  have n: "fst (ensure_sources response snippets) = rstrip (before_first ''Sources:'' response) @ ?block"
    if "snippets \<noteq> []"
  proof -
    from that have "map citation (take 3 snippets) \<noteq> []" by (cases snippets) simp_all
    then show ?thesis
      using assms base by (simp add: ensure_sources_def Let_def py_slice_take3 comp_def del: join.simps)
  qed
  have p: "fst (ensure_sources response snippets) = response @ ?block"
    if "snippets \<noteq> []" "\<not> contains response ''Sources:''" "rstrip response = response"
    using n [OF that(1)] that(2,3) by (simp add: before_first_absent)
  from s e n p show ?thesis by blast
qed

theorem ensure_sources_fallback_witness:
  "parse_sources (''Answer '' @ nl) = []
   \<and> ensure_sources (''Answer '' @ nl)
       [\<lparr>s_path = ''a.md'', s_heading = ''H'', s_line_start = 1, s_line_end = 12,
         excerpt = ''x'', s_score = 0\<rparr>,
        \<lparr>s_path = ''b.md'', s_heading = ''(top)'', s_line_start = 3, s_line_end = 4,
         excerpt = ''y'', s_score = 0\<rparr>]
     = (''Answer'' @ nl @ nl @ ''Sources:'' @ nl @ ''- a.md#H (lines 1-12)'' @ nl @ ''- b.md#(top) (lines 3-4)'',
        [''a.md#H (lines 1-12)'', ''b.md#(top) (lines 3-4)''])
   \<and> parse_sources ''Answer'' = []
   \<and> \<not> contains ''Answer'' ''Sources:'' \<and> rstrip ''Answer'' = ''Answer''
   \<and> ensure_sources ''Answer''
       [\<lparr>s_path = ''a.md'', s_heading = ''H'', s_line_start = 1, s_line_end = 12,
         excerpt = ''x'', s_score = 0\<rparr>]
     = (''Answer'' @ nl @ nl @ ''Sources:'' @ nl @ ''- a.md#H (lines 1-12)'', [''a.md#H (lines 1-12)''])
   \<and> ensure_sources ''Answer'' [] = (''Answer'', [])"
proof -
  let ?a = "\<lparr>s_path = ''a.md'', s_heading = ''H'', s_line_start = 1, s_line_end = 12,
         excerpt = ''x'', s_score = 0\<rparr>"
  let ?b = "\<lparr>s_path = ''b.md'', s_heading = ''(top)'', s_line_start = 3, s_line_end = 4,
         excerpt = ''y'', s_score = 0\<rparr>"
  have p1: "parse_sources (''Answer '' @ nl) = []" by code_simp
  have p2: "parse_sources ''Answer'' = []" by code_simp
  have c: "citation ?a = ''a.md#H (lines 1-12)''" "citation ?b = ''b.md#(top) (lines 3-4)''"
    by code_simp+
  have r1: "rstrip (before_first ''Sources:'' (''Answer '' @ nl)) = ''Answer''" by code_simp
  have r2: "\<not> contains ''Answer'' ''Sources:''" "rstrip ''Answer'' = ''Answer''" by code_simp+
  from ensure_sources_fallback [OF p1, of "[?a, ?b]"] c r1
  have x: "ensure_sources (''Answer '' @ nl) [?a, ?b]
     = (''Answer'' @ nl @ nl @ ''Sources:'' @ nl @ ''- a.md#H (lines 1-12)'' @ nl @ ''- b.md#(top) (lines 3-4)'',
        [''a.md#H (lines 1-12)'', ''b.md#(top) (lines 3-4)''])"
    by (simp add: prod_eq_iff numeral_eq_Suc)
  from ensure_sources_fallback [OF p2, of "[?a]"] c r2
  have y: "ensure_sources ''Answer'' [?a]
     = (''Answer'' @ nl @ nl @ ''Sources:'' @ nl @ ''- a.md#H (lines 1-12)'', [''a.md#H (lines 1-12)''])"
    by (simp add: prod_eq_iff numeral_eq_Suc)
  from ensure_sources_fallback [OF p2, of "[]"]
  have z: "ensure_sources ''Answer'' [] = (''Answer'', [])"
    by (simp add: prod_eq_iff)
  from p1 p2 r2 x y z show ?thesis by blast
qed

section \<open>Aliases of a note\<close>

lemma detect_title_no_heading:
  "\<forall>line \<in> set lines. heading_of line = None \<Longrightarrow> detect_title lines filename = detect_title [] filename"
proof (induction lines)
  case Nil
  then show ?case by simp
next
  case (Cons line rest)
  from Cons.prems have "heading_of line = None" by simp
  then have "HEADING_RE_match (strip line) = None"
    by (simp add: heading_of_def split: option.splits prod.splits)
  with Cons show ?case by simp
qed

text \<open>
  C8: for the file name \<open>GS1_Denmark-Overview.md\<close> and a document without heading lines,
  the title is \<open>GS1 Denmark Overview\<close> and the aliases are the twelve strings below.
  Among them are the lowered title and file name variants, the lowered variants split at
  case and number boundaries, and the prefixes of two and of three tokens, the leading
  tokens \<open>gs\<close> and \<open>1\<close> read as the one token \<open>gs1\<close>; so \<open>gs1 denmark\<close> is an alias.
\<close>

theorem build_aliases_gs1_denmark:
  assumes "\<forall>line \<in> set lines. heading_of line = None"
  shows "detect_title lines ''GS1_Denmark-Overview.md'' = ''GS1 Denmark Overview''
    \<and> build_aliases (detect_title lines ''GS1_Denmark-Overview.md'') ''GS1_Denmark-Overview.md''
        = [''denmark overview'', ''gs 1 denmark overview'', ''gs 1 denmark-overview'',
           ''gs 1_denmark'', ''gs 1_denmark overview'', ''gs 1_denmark-overview'',
           ''gs1 denmark'', ''gs1 denmark overview'', ''gs1 denmark-overview'',
           ''gs1_denmark overview'', ''gs1_denmark-overview'', ''overview'']
    \<and> set (map lower
          [detect_title lines ''GS1_Denmark-Overview.md'',
           splitext_root ''GS1_Denmark-Overview.md'',
           replace (splitext_root ''GS1_Denmark-Overview.md'') ''-'' '' '',
           replace (splitext_root ''GS1_Denmark-Overview.md'') ''_'' '' ''])
        \<subseteq> set (build_aliases (detect_title lines ''GS1_Denmark-Overview.md'') ''GS1_Denmark-Overview.md'')
    \<and> set (map (\<lambda>variant. lower (split_camel variant))
          [detect_title lines ''GS1_Denmark-Overview.md'',
           splitext_root ''GS1_Denmark-Overview.md'',
           replace (splitext_root ''GS1_Denmark-Overview.md'') ''-'' '' '',
           replace (splitext_root ''GS1_Denmark-Overview.md'') ''_'' '' ''])
        \<subseteq> set (build_aliases (detect_title lines ''GS1_Denmark-Overview.md'') ''GS1_Denmark-Overview.md'')
    \<and> WORD_RE_findall (lower (split_camel (detect_title lines ''GS1_Denmark-Overview.md'')))
        = [''gs'', ''1'', ''denmark'', ''overview'']
    \<and> {''gs1 denmark'', ''gs1 denmark overview''}
        \<subseteq> set (build_aliases (detect_title lines ''GS1_Denmark-Overview.md'') ''GS1_Denmark-Overview.md'')"
proof -
  have t: "detect_title lines ''GS1_Denmark-Overview.md'' = detect_title [] ''GS1_Denmark-Overview.md''"
    using assms by (rule detect_title_no_heading)
  have d: "detect_title [] ''GS1_Denmark-Overview.md'' = ''GS1 Denmark Overview''"
    by code_simp
  have s: "splitext_root ''GS1_Denmark-Overview.md'' = ''GS1_Denmark-Overview''"
    by code_simp
  have r: "replace ''GS1_Denmark-Overview'' ''-'' '' '' = ''GS1_Denmark Overview''"
    "replace ''GS1_Denmark-Overview'' ''_'' '' '' = ''GS1 Denmark-Overview''"
    by code_simp+
  have b: "build_aliases ''GS1 Denmark Overview'' ''GS1_Denmark-Overview.md''
        = [''denmark overview'', ''gs 1 denmark overview'', ''gs 1 denmark-overview'',
           ''gs 1_denmark'', ''gs 1_denmark overview'', ''gs 1_denmark-overview'',
           ''gs1 denmark'', ''gs1 denmark overview'', ''gs1 denmark-overview'',
           ''gs1_denmark overview'', ''gs1_denmark-overview'', ''overview'']"
    by code_simp
  have l: "map lower [''GS1 Denmark Overview'', ''GS1_Denmark-Overview'', ''GS1_Denmark Overview'',
                      ''GS1 Denmark-Overview'']
        = [''gs1 denmark overview'', ''gs1_denmark-overview'', ''gs1_denmark overview'',
           ''gs1 denmark-overview'']"
    by code_simp
  have c: "map (\<lambda>variant. lower (split_camel variant))
             [''GS1 Denmark Overview'', ''GS1_Denmark-Overview'', ''GS1_Denmark Overview'',
              ''GS1 Denmark-Overview'']
        = [''gs 1 denmark overview'', ''gs 1_denmark-overview'', ''gs 1_denmark overview'',
           ''gs 1 denmark-overview'']"
    by code_simp
  have w: "WORD_RE_findall (lower (split_camel ''GS1 Denmark Overview''))
        = [''gs'', ''1'', ''denmark'', ''overview'']"
    by code_simp
  show ?thesis
    unfolding t d s r b l c w by simp
qed

theorem build_aliases_gs1_denmark_witness:
  "heading_of ''Intro #1'' = None \<and> heading_of ''#tag and text'' = None
   \<and> detect_title [''Intro #1'', ''#tag and text''] ''GS1_Denmark-Overview.md'' = ''GS1 Denmark Overview''
   \<and> build_aliases (detect_title [''Intro #1'', ''#tag and text''] ''GS1_Denmark-Overview.md'')
        ''GS1_Denmark-Overview.md''
      = [''denmark overview'', ''gs 1 denmark overview'', ''gs 1 denmark-overview'',
         ''gs 1_denmark'', ''gs 1_denmark overview'', ''gs 1_denmark-overview'',
         ''gs1 denmark'', ''gs1 denmark overview'', ''gs1 denmark-overview'',
         ''gs1_denmark overview'', ''gs1_denmark-overview'', ''overview'']"
proof -
  have h: "heading_of ''Intro #1'' = None" "heading_of ''#tag and text'' = None"
    by code_simp+
  then have "\<forall>line \<in> set [''Intro #1'', ''#tag and text'']. heading_of line = None"
    by simp
  from build_aliases_gs1_denmark [OF this] h show ?thesis by blast
qed

end
